theory Spec2Isabelle
  imports Complex_Main "HOL-Library.AList" "HOL-Library.Sublist"
begin

section \<open>Documents and numbers\<close>

text \<open>
  A message as the collator hands it over (\<open>id\<close>, \<open>body\<close>; the other header fields play
  no role in the pipeline), and a message with the \<open>embedding\<close> property the embedding
  service attaches (\<open>{ ...message, embedding }\<close>). The record extension keeps every field
  of the message.
\<close>

record message =
  msg_id :: nat
  body :: string

record 'e embedded_message = message +
  embedding :: 'e

text \<open>
  The numbers of the source are IEEE 754 doubles: a finite value, an infinity, or
  not-a-number. How the exact result of an operation on finite values is rounded to a
  double (to a finite value, or to an infinity when it overflows, or to zero when it
  underflows) belongs to the platform and is a parameter \<open>fl\<close> of everything that
  computes; the operations on infinities and not-a-number are those of the standard.
  \<open>Math.sqrt\<close> is the correctly rounded square root of the standard, as the engines give
  it.
  The sign of a zero is not kept: \<open>cosineSimilarity\<close> never divides by a negative zero
  (its divisor is a product of square roots of sums of squares), and neither \<open>=== 0\<close>
  nor \<open>>\<close> sees the sign.
\<close>

datatype number = Finite real | PosInf | NegInf | NaN

type_synonym rounding = "real \<Rightarrow> number"

fun num_add :: "rounding \<Rightarrow> number \<Rightarrow> number \<Rightarrow> number" where
  "num_add fl (Finite a) (Finite b) = fl (a + b)"
| "num_add fl NaN y = NaN"
| "num_add fl x NaN = NaN"
| "num_add fl PosInf NegInf = NaN"
| "num_add fl NegInf PosInf = NaN"
| "num_add fl PosInf y = PosInf"
| "num_add fl x PosInf = PosInf"
| "num_add fl NegInf y = NegInf"
| "num_add fl x NegInf = NegInf"

fun num_mul :: "rounding \<Rightarrow> number \<Rightarrow> number \<Rightarrow> number" where
  "num_mul fl (Finite a) (Finite b) = fl (a * b)"
| "num_mul fl NaN y = NaN"
| "num_mul fl x NaN = NaN"
| "num_mul fl PosInf (Finite b) = (if b = 0 then NaN else if 0 < b then PosInf else NegInf)"
| "num_mul fl NegInf (Finite b) = (if b = 0 then NaN else if 0 < b then NegInf else PosInf)"
| "num_mul fl (Finite a) PosInf = (if a = 0 then NaN else if 0 < a then PosInf else NegInf)"
| "num_mul fl (Finite a) NegInf = (if a = 0 then NaN else if 0 < a then NegInf else PosInf)"
| "num_mul fl PosInf PosInf = PosInf"
| "num_mul fl NegInf NegInf = PosInf"
| "num_mul fl PosInf NegInf = NegInf"
| "num_mul fl NegInf PosInf = NegInf"

fun num_div :: "rounding \<Rightarrow> number \<Rightarrow> number \<Rightarrow> number" where
  "num_div fl (Finite a) (Finite b) =
     (if b = 0 then (if a = 0 then NaN else if 0 < a then PosInf else NegInf)
      else fl (a / b))"
| "num_div fl NaN y = NaN"
| "num_div fl x NaN = NaN"
| "num_div fl (Finite a) PosInf = Finite 0"
| "num_div fl (Finite a) NegInf = Finite 0"
| "num_div fl PosInf (Finite b) = (if b < 0 then NegInf else PosInf)"
| "num_div fl NegInf (Finite b) = (if b < 0 then PosInf else NegInf)"
| "num_div fl x y = NaN"

fun num_sqrt :: "rounding \<Rightarrow> number \<Rightarrow> number" where
  "num_sqrt fl (Finite a) = (if a < 0 then NaN else fl (sqrt a))"
| "num_sqrt fl PosInf = PosInf"
| "num_sqrt fl NegInf = NaN"
| "num_sqrt fl NaN = NaN"

text \<open>\<open>x > y\<close>: false as soon as one side is not-a-number.\<close>

fun num_gt :: "number \<Rightarrow> number \<Rightarrow> bool" where
  "num_gt (Finite a) (Finite b) = (b < a)"
| "num_gt PosInf (Finite b) = True"
| "num_gt PosInf NegInf = True"
| "num_gt (Finite a) NegInf = True"
| "num_gt x y = False"

text \<open>\<open>x === 0\<close>.\<close>

definition is_zero :: "number \<Rightarrow> bool" where
  "is_zero x \<longleftrightarrow> x = Finite 0"

type_synonym vector = "number list"

section \<open>deduplication.js\<close>

subsection \<open>cosineSimilarity\<close>

text \<open>
  The accumulation loop of \<open>cosineSimilarity\<close>: one pass over both vectors, carrying
  \<open>dotProduct\<close>, \<open>normA\<close> and \<open>normB\<close>. It is only entered with vectors of one length.
\<close>

fun accumulate ::
    "rounding \<Rightarrow> vector \<Rightarrow> vector \<Rightarrow> number \<times> number \<times> number \<Rightarrow> number \<times> number \<times> number" where
  "accumulate fl (a # vecA) (b # vecB) (dotProduct, normA, normB) =
     accumulate fl vecA vecB
       (num_add fl dotProduct (num_mul fl a b),
        num_add fl normA (num_mul fl a a),
        num_add fl normB (num_mul fl b b))"
| "accumulate fl _ _ acc = acc"

text \<open>A vector that is \<open>null\<close> or \<open>undefined\<close> is \<open>None\<close>.\<close>

definition cosineSimilarity :: "rounding \<Rightarrow> vector option \<Rightarrow> vector option \<Rightarrow> number" where
  "cosineSimilarity fl vecA vecB =
     (case (vecA, vecB) of
        (Some a, Some b) \<Rightarrow>
          if length a \<noteq> length b then Finite 0
          else (case accumulate fl a b (Finite 0, Finite 0, Finite 0) of
                  (dotProduct, normA, normB) \<Rightarrow>
                    if is_zero normA \<or> is_zero normB then Finite 0
                    else num_div fl dotProduct
                           (num_mul fl (num_sqrt fl normA) (num_sqrt fl normB)))
      | _ \<Rightarrow> Finite 0)"

subsection \<open>deduplicate\<close>

text \<open>
  A document of the deduplication carries an array of numbers as its embedding, or
  \<open>None\<close> for \<open>null\<close> and \<open>undefined\<close>. The threshold is a finite number.
\<close>

type_synonym doc = "vector option embedded_message"

text \<open>
  The inner loop \<open>for (let j = i + 1; j < messages.length; j++)\<close>, started at \<open>j\<close> with the
  current \<open>isDuplicate\<close> array. \<open>continue\<close> is the recursive call at \<open>j + 1\<close>, \<open>break\<close>
  returns the array at once.
\<close>

function inner_loop ::
    "rounding \<Rightarrow> real \<Rightarrow> doc list \<Rightarrow> nat \<Rightarrow> nat \<Rightarrow> bool list \<Rightarrow> bool list" where
  "inner_loop fl threshold messages i j isDuplicate =
     (if j < length messages then
        (if isDuplicate ! j \<or> embedding (messages ! j) = None
         then inner_loop fl threshold messages i (j + 1) isDuplicate
         else if num_gt (cosineSimilarity fl (embedding (messages ! i)) (embedding (messages ! j)))
                        (Finite threshold)
         then (if length (body (messages ! i)) > length (body (messages ! j))
               then inner_loop fl threshold messages i (j + 1) (isDuplicate[j := True])
               else isDuplicate[i := True])
         else inner_loop fl threshold messages i (j + 1) isDuplicate)
      else isDuplicate)"
  by pat_completeness auto
termination
  by (relation "measure (\<lambda>(fl, threshold, messages, i, j, isDuplicate). length messages - j)") auto

text \<open>The outer loop \<open>for (let i = 0; i < messages.length; i++)\<close>, started at \<open>i\<close>.\<close>

function outer_loop :: "rounding \<Rightarrow> real \<Rightarrow> doc list \<Rightarrow> nat \<Rightarrow> bool list \<Rightarrow> bool list" where
  "outer_loop fl threshold messages i isDuplicate =
     (if i < length messages then
        (if isDuplicate ! i \<or> embedding (messages ! i) = None
         then outer_loop fl threshold messages (i + 1) isDuplicate
         else outer_loop fl threshold messages (i + 1)
                (inner_loop fl threshold messages i (i + 1) isDuplicate))
      else isDuplicate)"
  by pat_completeness auto
termination
  by (relation "measure (\<lambda>(fl, threshold, messages, i, isDuplicate). length messages - i)") auto

text \<open>
  The marks after both loops, from \<open>new Array(messages.length).fill(false)\<close>, and the
  result: the messages whose mark is still false, in index order. (The array
  \<open>messageEmbeddings\<close> that the method builds first is never read.)
\<close>

definition marks :: "rounding \<Rightarrow> real \<Rightarrow> doc list \<Rightarrow> bool list" where
  "marks fl threshold messages =
     outer_loop fl threshold messages 0 (replicate (length messages) False)"

definition uniqueMessages :: "doc list \<Rightarrow> bool list \<Rightarrow> doc list" where
  "uniqueMessages messages isDuplicate =
     map (\<lambda>i. messages ! i) (filter (\<lambda>i. \<not> isDuplicate ! i) [0..<length messages])"

definition deduplicate :: "rounding \<Rightarrow> real \<Rightarrow> doc list \<Rightarrow> doc list" where
  "deduplicate fl threshold messages = uniqueMessages messages (marks fl threshold messages)"

section \<open>utils.js\<close>

subsection \<open>EmbeddingCache\<close>

text \<open>
  The cache holds a JavaScript \<open>Map\<close>. A \<open>Map\<close> iterates in insertion order, \<open>set\<close> on a
  key that is present replaces the value where the key stands, \<open>set\<close> on a new key appends,
  and \<open>delete\<close> on a key that is not there does nothing: an association list with
  \<open>AList.update\<close>, \<open>AList.delete\<close> and \<open>map_of\<close>. The digest of \<open>getKey\<close> (SHA-1 of the
  text, in hex) comes from the platform and is a parameter \<open>getKey\<close> of the operations.
\<close>

record 'v EmbeddingCache =
  cache :: "(string \<times> 'v) list"
  maxSize :: nat

definition EmbeddingCache_new :: "nat \<Rightarrow> 'v EmbeddingCache" where
  "EmbeddingCache_new n = \<lparr>cache = [], maxSize = n\<rparr>"

definition cache_get :: "(string \<Rightarrow> string) \<Rightarrow> 'v EmbeddingCache \<Rightarrow> string \<Rightarrow> 'v option" where
  "cache_get getKey c text = map_of (cache c) (getKey text)"

text \<open>
  \<open>set\<close>: when the size has reached \<open>maxSize\<close>, the first key of the map is deleted (on an
  empty map the first key is \<open>undefined\<close> and nothing is deleted); then the entry is set.
\<close>

definition cache_set :: "(string \<Rightarrow> string) \<Rightarrow> 'v EmbeddingCache \<Rightarrow> string \<Rightarrow> 'v \<Rightarrow> 'v EmbeddingCache" where
  "cache_set getKey c text vec =
     (let evicted =
        (if length (cache c) \<ge> maxSize c
         then (case cache c of
                 [] \<Rightarrow> cache c
               | (firstKey, _) # _ \<Rightarrow> AList.delete firstKey (cache c))
         else cache c)
      in c\<lparr>cache := AList.update (getKey text) vec evicted\<rparr>)"

text \<open>A sequence of \<open>set\<close> calls, each with its text and its vector.\<close>

definition cache_set_all ::
    "(string \<Rightarrow> string) \<Rightarrow> 'v EmbeddingCache \<Rightarrow> (string \<times> 'v) list \<Rightarrow> 'v EmbeddingCache" where
  "cache_set_all getKey c puts = foldl (\<lambda>c (text, vec). cache_set getKey c text vec) c puts"

subsection \<open>RateLimiter\<close>

text \<open>Times are milliseconds as \<open>Date.now()\<close> gives them.\<close>

record RateLimiter =
  maxRequests :: nat
  timeWindow :: int
  requestTimestamps :: "int list"

definition RateLimiter_new :: "nat \<Rightarrow> int \<Rightarrow> RateLimiter" where
  "RateLimiter_new n timeWindowMs = \<lparr>maxRequests = n, timeWindow = timeWindowMs, requestTimestamps = []\<rparr>"

text \<open>
  One pass through the body of \<open>throttle\<close> at the clock reading \<open>now\<close>: the timestamps are
  filtered; when the window is full the pass yields the time to wait (\<open>Some waitTime\<close>),
  else the request is admitted and \<open>now\<close> is pushed (\<open>None\<close>). With no timestamp left and a
  full window (\<open>maxRequests = 0\<close>) the oldest request is \<open>undefined\<close> and the wait is not a
  number, which the timer takes as no delay.
\<close>

definition throttle_pass :: "int \<Rightarrow> RateLimiter \<Rightarrow> int option \<times> RateLimiter" where
  "throttle_pass now rl =
     (let timestamps = filter (\<lambda>t. now - t < timeWindow rl) (requestTimestamps rl)
      in if length timestamps \<ge> maxRequests rl
         then (Some (case timestamps of
                       [] \<Rightarrow> 0
                     | oldestRequest # _ \<Rightarrow> timeWindow rl - (now - oldestRequest) + 100),
               rl\<lparr>requestTimestamps := timestamps\<rparr>)
         else (None, rl\<lparr>requestTimestamps := timestamps @ [now]\<rparr>))"

text \<open>
  \<open>throttle\<close> itself: after a pass that must wait, the timer fires \<open>waitTime\<close> later and the
  call starts over. The clock is passed in and the time of admission returned. The
  function need not return (for \<open>maxRequests = 0\<close> it never does): not returning is
  \<open>None\<close>.
\<close>

partial_function (option) throttle :: "RateLimiter \<Rightarrow> int \<Rightarrow> (RateLimiter \<times> int) option" where
  "throttle rl now =
     (case throttle_pass now rl of
        (Some waitTime, rl') \<Rightarrow> throttle rl' (now + max 0 waitTime)
      | (None, rl') \<Rightarrow> Some (rl', now))"

text \<open>
  Any sequential use of one limiter is a sequence of passes, each at its own clock
  reading, whatever the timers and the callers do in between. \<open>passes\<close> runs them and
  collects the timestamps of the admissions granted.
\<close>

fun passes :: "RateLimiter \<Rightarrow> int list \<Rightarrow> RateLimiter \<times> int list" where
  "passes rl [] = (rl, [])"
| "passes rl (now # nows) =
     (case throttle_pass now rl of
        (Some waitTime, rl') \<Rightarrow> passes rl' nows
      | (None, rl') \<Rightarrow> (case passes rl' nows of (rl'', admitted) \<Rightarrow> (rl'', now # admitted)))"

definition admissions :: "RateLimiter \<Rightarrow> int list \<Rightarrow> int list" where
  "admissions rl nows = snd (passes rl nows)"


section \<open>embeddings.js\<close>

subsection \<open>Values, errors and the network\<close>

text \<open>
  What \<open>response.json()\<close> yields, and what the service passes on unchecked as an
  embedding. A JavaScript value that may be \<open>undefined\<close> is a \<open>json option\<close> with \<open>None\<close> for
  \<open>undefined\<close>.
\<close>

datatype json =
    JNull
  | JBool bool
  | JNum real
  | JStr string
  | JArr "json list"
  | JObj "(string \<times> json) list"

type_synonym js_value = "json option"

text \<open>The condition of \<open>if (cached)\<close>.\<close>

fun truthy :: "js_value \<Rightarrow> bool" where
  "truthy None = False"
| "truthy (Some JNull) = False"
| "truthy (Some (JBool b)) = b"
| "truthy (Some (JNum x)) = (x \<noteq> 0)"
| "truthy (Some (JStr s)) = (s \<noteq> [])"
| "truthy (Some (JArr _)) = True"
| "truthy (Some (JObj _)) = True"

datatype error =
    NetworkError
  | OllamaApiError nat string
  | GeminiApiError nat js_value
  | SyntaxError
  | TypeError
  | MissingApiKey
  | UnsupportedProvider string

text \<open>
  Reading a property by name, for the names the service reads (\<open>embedding\<close>, \<open>value\<close>,
  \<open>error\<close>, \<open>message\<close>): on \<open>undefined\<close> and \<open>null\<close> it throws a \<open>TypeError\<close>, on an object it
  is the property or \<open>undefined\<close>, on any other value \<open>undefined\<close>.
\<close>

fun property :: "js_value \<Rightarrow> string \<Rightarrow> error + js_value" where
  "property None name = Inl TypeError"
| "property (Some JNull) name = Inl TypeError"
| "property (Some (JObj properties)) name = Inr (map_of properties name)"
| "property (Some _) name = Inr None"

record request =
  url :: string
  payload :: json

text \<open>
  A response: \<open>ok\<close>, \<open>status\<close>, the body as \<open>text()\<close> gives it and as \<open>json()\<close> gives it
  (\<open>None\<close> when the body is not JSON and \<open>json()\<close> rejects with a \<open>SyntaxError\<close>).
\<close>

record response =
  ok :: bool
  status :: nat
  text_body :: string
  json_body :: "json option"

datatype fetch_result = Failed | Response response

text \<open>
  The world outside the service: the clock, and how many requests went out. The network
  is a parameter: what the \<open>n\<close>-th \<open>fetch\<close> of the run answers to a request.
\<close>

record world =
  clock :: int
  requests :: nat

type_synonym network = "nat \<Rightarrow> request \<Rightarrow> fetch_result"

definition fetch :: "network \<Rightarrow> world \<Rightarrow> request \<Rightarrow> fetch_result \<times> world" where
  "fetch net w req = (net (requests w) req, w\<lparr>requests := requests w + 1\<rparr>)"

subsection \<open>Settings and the service\<close>

record ollama_settings =
  endpoint :: "string option"
  model :: "string option"

record gemini_settings =
  apiKey :: "string option"

record settings =
  settings_provider :: "string option"
  ollama :: "ollama_settings option"
  gemini :: "gemini_settings option"

datatype config = OllamaConfig ollama_settings | GeminiConfig gemini_settings

text \<open>\<open>a || b\<close> on strings that may be \<open>undefined\<close>: the empty string is falsy too.\<close>

fun or_else :: "string option \<Rightarrow> string \<Rightarrow> string" where
  "or_else None d = d"
| "or_else (Some s) d = (if s = [] then d else s)"

text \<open>
  \<open>settings[this.provider]\<close>. Under a name other than the two providers' the settings
  hold nothing the service ever reads.
\<close>

definition settings_lookup :: "settings \<Rightarrow> string \<Rightarrow> config option" where
  "settings_lookup s name =
     (if name = ''ollama'' then map_option OllamaConfig (ollama s)
      else if name = ''gemini'' then map_option GeminiConfig (gemini s)
      else None)"

fun config_endpoint :: "config \<Rightarrow> string option" where
  "config_endpoint (OllamaConfig c) = endpoint c"
| "config_endpoint (GeminiConfig c) = None"

fun config_model :: "config \<Rightarrow> string option" where
  "config_model (OllamaConfig c) = model c"
| "config_model (GeminiConfig c) = None"

fun config_apiKey :: "config \<Rightarrow> string option" where
  "config_apiKey (OllamaConfig c) = None"
| "config_apiKey (GeminiConfig c) = apiKey c"

record EmbeddingService =
  provider :: string
  config :: "config option"
  service_cache :: "js_value EmbeddingCache"
  rateLimiter :: RateLimiter

text \<open>
  The constructor. It has no \<open>throw\<close>: whatever the provider name, it returns a service
  (the result is a sum so that this can be said).
\<close>

definition EmbeddingService_new :: "settings \<Rightarrow> error + EmbeddingService" where
  "EmbeddingService_new s =
     (let p = or_else (settings_provider s) ''ollama''
      in Inr \<lparr>provider = p,
              config = settings_lookup s p,
              service_cache = EmbeddingCache_new 1000,
              rateLimiter = RateLimiter_new 45 (60 * 1000)\<rparr>)"


subsection \<open>The providers\<close>

definition ollama_request :: "config \<Rightarrow> string \<Rightarrow> request" where
  "ollama_request c text =
     \<lparr>url = or_else (config_endpoint c) ''http://localhost:11434'' @ ''/api/embeddings'',
      payload = JObj [(''model'', JStr (or_else (config_model c) ''nomic-embed-text'')),
                      (''prompt'', JStr text)]\<rparr>"

text \<open>
  \<open>getOllamaEmbedding\<close>. Without a configuration object, reading \<open>this.config.endpoint\<close>
  throws before anything is sent. A rejected \<open>fetch\<close>, a response that is not \<open>ok\<close> and a
  body that is not JSON are errors; otherwise \<open>data.embedding\<close> is returned as it is.
\<close>

definition getOllamaEmbedding ::
    "network \<Rightarrow> config option \<Rightarrow> world \<Rightarrow> string \<Rightarrow> (error + js_value) \<times> world" where
  "getOllamaEmbedding net cfg w text =
     (case cfg of
        None \<Rightarrow> (Inl TypeError, w)
      | Some c \<Rightarrow>
          (case fetch net w (ollama_request c text) of
             (Failed, w') \<Rightarrow> (Inl NetworkError, w')
           | (Response response, w') \<Rightarrow>
               if \<not> ok response
               then (Inl (OllamaApiError (status response) (text_body response)), w')
               else (case json_body response of
                       None \<Rightarrow> (Inl SyntaxError, w')
                     | Some data \<Rightarrow> (property (Some data) ''embedding'', w'))))"

definition gemini_request :: "string \<Rightarrow> string \<Rightarrow> request" where
  "gemini_request key text =
     \<lparr>url = ''https://generativelanguage.googleapis.com/v1beta/models/text-embedding-004:embedContent?key='' @ key,
      payload = JObj [(''model'', JStr ''models/text-embedding-004''),
                      (''content'', JObj [(''parts'', JArr [JObj [(''text'', JStr text)]])])]\<rparr>"

text \<open>
  \<open>getGeminiEmbedding\<close>. A response that is not \<open>ok\<close> always ends in an error: the parse of
  the error body, the read of \<open>errorBody.error.message\<close>, or the \<open>throw\<close> after it.
\<close>

definition gemini_failure :: "response \<Rightarrow> error" where
  "gemini_failure response =
     (case json_body response of
        None \<Rightarrow> SyntaxError
      | Some errorBody \<Rightarrow>
          (case property (Some errorBody) ''error'' of
             Inl e \<Rightarrow> e
           | Inr err \<Rightarrow>
               (case property err ''message'' of
                  Inl e \<Rightarrow> e
                | Inr message \<Rightarrow> GeminiApiError (status response) message)))"

definition getGeminiEmbedding ::
    "network \<Rightarrow> config option \<Rightarrow> world \<Rightarrow> string \<Rightarrow> (error + js_value) \<times> world" where
  "getGeminiEmbedding net cfg w text =
     (case cfg of
        None \<Rightarrow> (Inl TypeError, w)
      | Some c \<Rightarrow>
          if or_else (config_apiKey c) [] = [] then (Inl MissingApiKey, w)
          else (case fetch net w (gemini_request (or_else (config_apiKey c) []) text) of
                  (Failed, w') \<Rightarrow> (Inl NetworkError, w')
                | (Response response, w') \<Rightarrow>
                    if \<not> ok response then (Inl (gemini_failure response), w')
                    else (case json_body response of
                            None \<Rightarrow> (Inl SyntaxError, w')
                          | Some data \<Rightarrow>
                              (case property (Some data) ''embedding'' of
                                 Inl e \<Rightarrow> (Inl e, w')
                               | Inr e \<Rightarrow> (property e ''value'', w')))))"

subsection \<open>getEmbedding\<close>

text \<open>
  \<open>this.cache.get(text)\<close> is \<open>undefined\<close> for a key that is not there, and the stored value
  otherwise (which may itself be \<open>undefined\<close>).
\<close>

definition cached_value :: "(string \<Rightarrow> string) \<Rightarrow> EmbeddingService \<Rightarrow> string \<Rightarrow> js_value" where
  "cached_value getKey svc text =
     (case cache_get getKey (service_cache svc) text of None \<Rightarrow> None | Some v \<Rightarrow> v)"

text \<open>
  \<open>getEmbedding\<close>: the cached value when it is truthy; otherwise the throttle, then the
  provider by name, then the store into the cache. It either returns a value (\<open>Inr\<close>) or
  throws (\<open>Inl\<close>), with the service and the world as they are then; \<open>None\<close> when the
  throttle never admits the call.
\<close>

definition getEmbedding ::
    "(string \<Rightarrow> string) \<Rightarrow> network \<Rightarrow> EmbeddingService \<Rightarrow> world \<Rightarrow> string
       \<Rightarrow> ((error + js_value) \<times> EmbeddingService \<times> world) option" where
  "getEmbedding getKey net svc w text =
     (let cached = cached_value getKey svc text
      in if truthy cached then Some (Inr cached, svc, w)
         else (case throttle (rateLimiter svc) (clock w) of
                 None \<Rightarrow> None
               | Some (rl, now) \<Rightarrow>
                   (let svc1 = svc\<lparr>rateLimiter := rl\<rparr>;
                        w1 = w\<lparr>clock := now\<rparr>
                    in if provider svc = ''ollama'' then
                         (case getOllamaEmbedding net (config svc) w1 text of
                            (Inl e, w2) \<Rightarrow> Some (Inl e, svc1, w2)
                          | (Inr vec, w2) \<Rightarrow>
                              Some (Inr vec,
                                    svc1\<lparr>service_cache := cache_set getKey (service_cache svc1) text vec\<rparr>,
                                    w2))
                       else if provider svc = ''gemini'' then
                         (case getGeminiEmbedding net (config svc) w1 text of
                            (Inl e, w2) \<Rightarrow> Some (Inl e, svc1, w2)
                          | (Inr vec, w2) \<Rightarrow>
                              Some (Inr vec,
                                    svc1\<lparr>service_cache := cache_set getKey (service_cache svc1) text vec\<rparr>,
                                    w2))
                       else Some (Inl (UnsupportedProvider (provider svc)), svc1, w1))))"

subsection \<open>generateEmbeddingsForMessages\<close>

type_synonym embedded = "js_value embedded_message"

definition with_embedding :: "message \<Rightarrow> js_value \<Rightarrow> embedded" where
  "with_embedding m vec = \<lparr>msg_id = msg_id m, body = body m, embedding = vec\<rparr>"

text \<open>
  The loop over the messages, with \<open>messagesWithEmbeddings\<close> and \<open>count\<close>. What the body of
  the \<open>try\<close> throws goes to the \<open>catch\<close>, which warns on the console and pushes the message
  with \<open>embedding: null\<close>. The calls of \<open>onProgress\<close> and of \<open>console.warn\<close> are recorded in
  the order they are made: \<open>progress\<close> holds the pairs \<open>(current, total)\<close>, \<open>warnings\<close> the
  message id and the error.
\<close>

fun embed_loop ::
    "(string \<Rightarrow> string) \<Rightarrow> network \<Rightarrow> nat \<Rightarrow> message list \<Rightarrow> EmbeddingService \<Rightarrow> world
       \<Rightarrow> embedded list \<Rightarrow> nat \<Rightarrow> (nat \<times> nat) list \<Rightarrow> (nat \<times> error) list
       \<Rightarrow> (embedded list \<times> (nat \<times> nat) list \<times> (nat \<times> error) list \<times> EmbeddingService \<times> world) option" where
  "embed_loop getKey net len [] svc w messagesWithEmbeddings count progress warnings =
     Some (messagesWithEmbeddings, progress, warnings, svc, w)"
| "embed_loop getKey net len (m # rest) svc w messagesWithEmbeddings count progress warnings =
     (case getEmbedding getKey net svc w (body m) of
        None \<Rightarrow> None
      | Some (Inr vec, svc', w') \<Rightarrow>
          embed_loop getKey net len rest svc' w'
            (messagesWithEmbeddings @ [with_embedding m vec])
            (count + 1) (progress @ [(count + 1, len)]) warnings
      | Some (Inl e, svc', w') \<Rightarrow>
          embed_loop getKey net len rest svc' w'
            (messagesWithEmbeddings @ [with_embedding m (Some JNull)])
            (count + 1) (progress @ [(count + 1, len)]) (warnings @ [(msg_id m, e)]))"

definition generateEmbeddingsForMessages ::
    "(string \<Rightarrow> string) \<Rightarrow> network \<Rightarrow> EmbeddingService \<Rightarrow> world \<Rightarrow> message list
       \<Rightarrow> (embedded list \<times> (nat \<times> nat) list \<times> (nat \<times> error) list \<times> EmbeddingService \<times> world) option" where
  "generateEmbeddingsForMessages getKey net svc w messages =
     embed_loop getKey net (length messages) messages svc w [] 0 [] []"

text \<open>
  The outcomes of the \<open>getEmbedding\<close> calls a run over the messages meets, one per
  message, each call in the state the call before left.
\<close>

fun outcomes ::
    "(string \<Rightarrow> string) \<Rightarrow> network \<Rightarrow> EmbeddingService \<Rightarrow> world \<Rightarrow> message list
       \<Rightarrow> (error + js_value) list option" where
  "outcomes getKey net svc w [] = Some []"
| "outcomes getKey net svc w (m # rest) =
     (case getEmbedding getKey net svc w (body m) of
        None \<Rightarrow> None
      | Some (r, svc', w') \<Rightarrow> map_option ((#) r) (outcomes getKey net svc' w' rest))"

text \<open>What the loop attaches for an outcome: the vector, or \<open>null\<close> after a failure.\<close>

fun attached :: "error + js_value \<Rightarrow> js_value" where
  "attached (Inl e) = Some JNull"
| "attached (Inr vec) = vec"

section \<open>Notions used in the statements and proofs\<close>

text \<open>
  Two documents are similar at a threshold when both carry an embedding and the cosine
  similarity the code computes for them exceeds the threshold: the test under which the
  inner loop marks one of them.
\<close>

definition similar :: "rounding \<Rightarrow> real \<Rightarrow> doc \<Rightarrow> doc \<Rightarrow> bool" where
  "similar fl threshold x y \<longleftrightarrow>
     embedding x \<noteq> None \<and> embedding y \<noteq> None \<and>
     num_gt (cosineSimilarity fl (embedding x) (embedding y)) (Finite threshold)"

text \<open>
  The invariant of the outer loop at index \<open>i\<close>: among the documents not marked, no
  pair whose first index is below \<open>i\<close> is similar.
\<close>

definition settled :: "rounding \<Rightarrow> real \<Rightarrow> doc list \<Rightarrow> nat \<Rightarrow> bool list \<Rightarrow> bool" where
  "settled fl threshold messages i isDuplicate \<longleftrightarrow>
     (\<forall>a b. a < b \<and> b < length messages \<and> a < i \<and> \<not> isDuplicate ! a \<and> \<not> isDuplicate ! b
        \<longrightarrow> \<not> similar fl threshold (messages ! a) (messages ! b))"

text \<open>
  Document \<open>m\<close> can be marked against document \<open>k\<close>: the two are similar, and the body of
  \<open>k\<close> is strictly longer when \<open>k\<close> comes first, at least as long when \<open>k\<close> comes later.
\<close>

definition marked_against :: "rounding \<Rightarrow> real \<Rightarrow> doc list \<Rightarrow> nat \<Rightarrow> nat \<Rightarrow> bool" where
  "marked_against fl threshold messages m k \<longleftrightarrow>
     m < length messages \<and> k < length messages \<and>
     (if k < m
      then similar fl threshold (messages ! k) (messages ! m) \<and>
           length (body (messages ! k)) > length (body (messages ! m))
      else m < k \<and> similar fl threshold (messages ! m) (messages ! k) \<and>
           length (body (messages ! m)) \<le> length (body (messages ! k)))"

definition justified :: "rounding \<Rightarrow> real \<Rightarrow> doc list \<Rightarrow> bool list \<Rightarrow> bool" where
  "justified fl threshold messages isDuplicate \<longleftrightarrow>
     (\<forall>m. m < length messages \<and> isDuplicate ! m
        \<longrightarrow> (\<exists>k. marked_against fl threshold messages m k))"

text \<open>
  The run of \<open>deduplicate\<close>, position by position. \<open>scan_start\<close> is the \<open>isDuplicate\<close> array
  when the outer loop arrives at index \<open>i\<close>. \<open>scan_at\<close> is the array when the scan of \<open>i\<close>
  (the inner loop for \<open>i\<close>) arrives at index \<open>j\<close>, and \<open>None\<close> when it never does: \<open>i\<close> is
  skipped by the outer loop, or the scan has stopped at a \<open>break\<close> before \<open>j\<close>, or \<open>j\<close> is
  not beyond \<open>i\<close> or is beyond the end.
\<close>

fun scan_start :: "rounding \<Rightarrow> real \<Rightarrow> doc list \<Rightarrow> nat \<Rightarrow> bool list" where
  "scan_start fl threshold messages 0 = replicate (length messages) False"
| "scan_start fl threshold messages (Suc i) =
     (let isDuplicate = scan_start fl threshold messages i
      in if isDuplicate ! i \<or> embedding (messages ! i) = None then isDuplicate
         else inner_loop fl threshold messages i (i + 1) isDuplicate)"

fun scan_at :: "rounding \<Rightarrow> real \<Rightarrow> doc list \<Rightarrow> nat \<Rightarrow> nat \<Rightarrow> bool list option" where
  "scan_at fl threshold messages i 0 = None"
| "scan_at fl threshold messages i (Suc j) =
     (if j < i then None
      else if j = i then
        (let isDuplicate = scan_start fl threshold messages i
         in if i < length messages \<and> \<not> (isDuplicate ! i \<or> embedding (messages ! i) = None)
            then Some isDuplicate else None)
      else
        (case scan_at fl threshold messages i j of
           None \<Rightarrow> None
         | Some isDuplicate \<Rightarrow>
             if j < length messages then
               (if isDuplicate ! j \<or> embedding (messages ! j) = None then Some isDuplicate
                else if num_gt (cosineSimilarity fl (embedding (messages ! i))
                                  (embedding (messages ! j))) (Finite threshold)
                then (if length (body (messages ! i)) > length (body (messages ! j))
                      then Some (isDuplicate[j := True])
                      else None)
                else Some isDuplicate)
             else None))"

text \<open>
  What the scenario of the specification needs of the rounding, far less than doubles
  give: zero and one are kept, a result between 1/2 and 2 is off by at most 1/1000, and
  a result between 0 and 1/1000 stays between 0 and 1/500.
\<close>

definition accurate :: "rounding \<Rightarrow> bool" where
  "accurate fl \<longleftrightarrow>
     fl 0 = Finite 0 \<and> fl 1 = Finite 1 \<and>
     (\<forall>x. 1 / 2 \<le> x \<and> x \<le> 2 \<longrightarrow> (\<exists>y. fl x = Finite y \<and> \<bar>y - x\<bar> \<le> 1 / 1000)) \<and>
     (\<forall>x. 0 \<le> x \<and> x \<le> 1 / 1000 \<longrightarrow> (\<exists>y. fl x = Finite y \<and> 0 \<le> y \<and> y \<le> 1 / 500))"

text \<open>
  The rounding keeps the values of a list: each of them is a double, and an operation
  whose exact result is a double returns it.
\<close>

definition exact_on :: "rounding \<Rightarrow> real list \<Rightarrow> bool" where
  "exact_on fl xs \<longleftrightarrow> list_all (\<lambda>x. fl x = Finite x) xs"

text \<open>
  The documents of the scenario of the specification: embeddings \<open>[1, 0]\<close>, \<open>[1, e]\<close> with
  \<open>e\<close> the number read for 0.01, and \<open>[0, 1]\<close>; bodies of 100, 50 and 80 characters.
\<close>

definition scenario_doc1 :: doc where
  "scenario_doc1 =
     \<lparr>msg_id = 1, body = replicate 100 CHR ''a'', embedding = Some [Finite 1, Finite 0]\<rparr>"

definition scenario_doc2 :: "real \<Rightarrow> doc" where
  "scenario_doc2 e =
     \<lparr>msg_id = 2, body = replicate 50 CHR ''a'', embedding = Some [Finite 1, Finite e]\<rparr>"

definition scenario_doc3 :: doc where
  "scenario_doc3 =
     \<lparr>msg_id = 3, body = replicate 80 CHR ''a'', embedding = Some [Finite 0, Finite 1]\<rparr>"

text \<open>A document whose embedding is \<open>null\<close>.\<close>

definition bare_doc :: doc where
  "bare_doc = \<lparr>msg_id = 4, body = ''no vector'', embedding = None\<rparr>"

text \<open>
  A chain of three documents for the threshold 0.25: the cosine similarity of the first
  two is 0.5, that of the last two is 0.5, that of the first and the last is 0; the
  bodies get shorter along the chain. Every value that arises when these similarities
  are computed is one of 0, 1, -1, 2, 3, 4 and 1/2, all of them doubles, so that the
  arithmetic of the source computes them without rounding.
\<close>

definition chain_doc1 :: doc where
  "chain_doc1 =
     \<lparr>msg_id = 1, body = ''abc'', embedding = Some [Finite 1, Finite 1, Finite 1, Finite 1]\<rparr>"

definition chain_doc2 :: doc where
  "chain_doc2 =
     \<lparr>msg_id = 2, body = ''ab'', embedding = Some [Finite 1, Finite 1, Finite 1, Finite (- 1)]\<rparr>"

definition chain_doc3 :: doc where
  "chain_doc3 =
     \<lparr>msg_id = 3, body = ''a'', embedding = Some [Finite 1, Finite 1, Finite (- 1), Finite (- 1)]\<rparr>"

definition chain_values :: "real list" where
  "chain_values = [0, 1, - 1, 2, 3, 4, 1 / 2]"


text \<open>
  Sequential callers of one limiter: each call of \<open>throttle\<close> starts some time (\<open>gap\<close>
  milliseconds) after the call before it was admitted, and runs until it is admitted
  itself. The result holds the limiter, the clock and the admission times in order.
\<close>

fun acquisitions :: "RateLimiter \<Rightarrow> int \<Rightarrow> nat list \<Rightarrow> (RateLimiter \<times> int \<times> int list) option" where
  "acquisitions rl now [] = Some (rl, now, [])"
| "acquisitions rl now (gap # gaps) =
     (case throttle rl (now + int gap) of
        None \<Rightarrow> None
      | Some (rl', t) \<Rightarrow>
          (case acquisitions rl' t gaps of
             None \<Rightarrow> None
           | Some (rl'', t', admitted) \<Rightarrow> Some (rl'', t', t # admitted)))"

text \<open>
  The trailing window of length \<open>W\<close> that ends at \<open>T\<close>, read as the limiter reads it
  (\<open>T - t < W\<close> for a time \<open>t\<close> that is not after \<open>T\<close>).
\<close>

definition in_window :: "int \<Rightarrow> int \<Rightarrow> int \<Rightarrow> bool" where
  "in_window W T t \<longleftrightarrow> T - W < t \<and> t \<le> T"

text \<open>
  The limiter tracks a history of admissions up to the clock reading \<open>lo\<close>: filtered at
  any later reading, its timestamps are those of the history; and the history obeys the
  bound \<open>n\<close> on every window.
\<close>

definition tracks :: "RateLimiter \<Rightarrow> int list \<Rightarrow> int \<Rightarrow> bool" where
  "tracks rl hist lo \<longleftrightarrow>
     (\<forall>x\<ge>lo. filter (\<lambda>t. x - t < timeWindow rl) (requestTimestamps rl) =
              filter (\<lambda>t. x - t < timeWindow rl) hist) \<and>
     (\<forall>t\<in>set hist. t \<le> lo)"

definition bounded :: "nat \<Rightarrow> int \<Rightarrow> int list \<Rightarrow> bool" where
  "bounded n W hist \<longleftrightarrow> (\<forall>T. length (filter (in_window W T) hist) \<le> n)"

text \<open>The warnings a run leaves: the id and the error of every message that failed.\<close>

definition failures :: "message list \<Rightarrow> (error + js_value) list \<Rightarrow> (nat \<times> error) list" where
  "failures ms rs =
     concat (map (\<lambda>(m, r). case r of Inl e \<Rightarrow> [(msg_id m, e)] | Inr v \<Rightarrow> []) (zip ms rs))"

text \<open>
  Examples: the settings \<open>storage.js\<close> defaults to, settings that name a provider the
  service does not know, a world at time 0, five messages, a response that carries a
  vector, one that is a JSON object without the \<open>embedding\<close> property, a server error and
  a page that is not JSON, a network that always gives one answer and one whose third
  request fails in transport.
\<close>

definition default_settings :: settings where
  "default_settings =
     \<lparr>settings_provider = Some ''ollama'',
      ollama = Some \<lparr>endpoint = Some ''http://localhost:11434'', model = Some ''nomic-embed-text''\<rparr>,
      gemini = Some \<lparr>apiKey = Some []\<rparr>\<rparr>"

definition unknown_settings :: settings where
  "unknown_settings = default_settings\<lparr>settings_provider := Some ''openai''\<rparr>"

text \<open>
  The configuration of the local provider in these settings, one of the cloud provider
  with a credential, and the services the constructor builds from the settings.
\<close>

definition local_config :: config where
  "local_config =
     OllamaConfig \<lparr>endpoint = Some ''http://localhost:11434'', model = Some ''nomic-embed-text''\<rparr>"

definition cloud_config :: config where
  "cloud_config = GeminiConfig \<lparr>apiKey = Some ''secret''\<rparr>"

definition default_service :: EmbeddingService where
  "default_service =
     \<lparr>provider = ''ollama'',
      config = Some local_config,
      service_cache = EmbeddingCache_new 1000,
      rateLimiter = RateLimiter_new 45 (60 * 1000)\<rparr>"

definition unknown_service :: EmbeddingService where
  "unknown_service =
     \<lparr>provider = ''openai'',
      config = None,
      service_cache = EmbeddingCache_new 1000,
      rateLimiter = RateLimiter_new 45 (60 * 1000)\<rparr>"

definition start :: world where
  "start = \<lparr>clock = 0, requests = 0\<rparr>"

definition five_messages :: "message list" where
  "five_messages =
     [\<lparr>msg_id = 1, body = ''one''\<rparr>, \<lparr>msg_id = 2, body = ''two''\<rparr>, \<lparr>msg_id = 3, body = ''three''\<rparr>,
      \<lparr>msg_id = 4, body = ''four''\<rparr>, \<lparr>msg_id = 5, body = ''five''\<rparr>]"

definition vector_response :: response where
  "vector_response =
     \<lparr>ok = True, status = 200, text_body = ''{embedding: [1, 0]}'',
      json_body = Some (JObj [(''embedding'', JArr [JNum 1, JNum 0])])\<rparr>"

definition empty_object_response :: response where
  "empty_object_response = \<lparr>ok = True, status = 200, text_body = ''{}'', json_body = Some (JObj [])\<rparr>"

definition server_error_response :: response where
  "server_error_response =
     \<lparr>ok = False, status = 500, text_body = ''model not found'', json_body = None\<rparr>"

definition html_response :: response where
  "html_response = \<lparr>ok = True, status = 200, text_body = ''<html>'', json_body = None\<rparr>"

definition always :: "fetch_result \<Rightarrow> network" where
  "always answer n req = answer"

definition third_fails :: network where
  "third_fails n req = (if n = 2 then Failed else Response vector_response)"

section \<open>Properties of the deduplication\<close>

declare inner_loop.simps [simp del]
declare outer_loop.simps [simp del]

subsection \<open>The marks\<close>

lemma length_inner_loop: "length (inner_loop fl th ms i j d) = length d"
  by (induction fl th ms i j d rule: inner_loop.induct) (subst inner_loop.simps, simp)

lemma length_outer_loop: "length (outer_loop fl th ms i d) = length d"
  by (induction fl th ms i d rule: outer_loop.induct)
     (subst outer_loop.simps, simp add: length_inner_loop)

lemma length_marks: "length (marks fl th ms) = length ms"
  by (simp add: marks_def length_outer_loop)

text \<open>A mark, once set, stays.\<close>

lemma mark_keeps: "d ! k \<Longrightarrow> k < length d \<Longrightarrow> d[i := True] ! k"
  by (cases "i = k") auto

lemma inner_loop_keeps: "d ! k \<Longrightarrow> k < length d \<Longrightarrow> inner_loop fl th ms i j d ! k"
proof (induction fl th ms i j d rule: inner_loop.induct)
  case (1 fl th ms i j d)
  show ?case
    using "1.IH" "1.prems"
    by (subst inner_loop.simps) (auto simp: mark_keeps)
qed

lemma outer_loop_keeps: "d ! k \<Longrightarrow> k < length d \<Longrightarrow> outer_loop fl th ms i d ! k"
proof (induction fl th ms i d rule: outer_loop.induct)
  case (1 fl th ms i d)
  show ?case
    using "1.IH" "1.prems"
    by (subst outer_loop.simps) (auto simp: inner_loop_keeps length_inner_loop)
qed

subsection \<open>The result as a filter\<close>

lemma uniqueMessages_zip:
  "length d = length ms \<Longrightarrow>
   uniqueMessages ms d = map fst (filter (\<lambda>p. \<not> snd p) (zip ms d))"
proof (induction ms arbitrary: d rule: rev_induct)
  case Nil
  then show ?case by (simp add: uniqueMessages_def)
next
  case (snoc m ms)
  then obtain d' b where d: "d = d' @ [b]" and len: "length d' = length ms"
    by (cases d rule: rev_cases) auto
  have "uniqueMessages ms d' = map fst (filter (\<lambda>p. \<not> snd p) (zip ms d'))"
    using snoc.IH len by simp
  moreover have "map (\<lambda>i. (ms @ [m]) ! i) (filter (\<lambda>i. \<not> (d' @ [b]) ! i) [0..<length ms])
      = map (\<lambda>i. ms ! i) (filter (\<lambda>i. \<not> d' ! i) [0..<length ms])"
    using len by (intro map_cong filter_cong) (auto simp: nth_append)
  ultimately show ?case
    using len by (simp add: uniqueMessages_def d nth_append)
qed

lemma subseq_deduplicate: "subseq (deduplicate fl th ms) ms"
proof -
  have "subseq (map fst (filter (\<lambda>p. \<not> snd p) (zip ms (marks fl th ms))))
               (map fst (zip ms (marks fl th ms)))"
    by (intro subseq_map subseq_filter_left)
  then show ?thesis
    by (simp add: deduplicate_def uniqueMessages_zip length_marks)
qed

lemma count_list_subseq: "subseq xs ys \<Longrightarrow> count_list xs x \<le> count_list ys x"
  by (induction rule: list_emb.induct) auto

lemma set_subseq: "subseq xs ys \<Longrightarrow> set xs \<subseteq> set ys"
  by (induction rule: list_emb.induct) auto

text \<open>
  C6. For every list of documents and every threshold, the output of \<open>deduplicate\<close> is a
  subsequence of the input: the relative order is that of the input, every output
  document occurs in the input, and no document occurs more often in the output than in
  the input. This holds whatever the rounding of the arithmetic.
\<close>

theorem deduplicate_subsequence:
  "subseq (deduplicate fl threshold messages) messages \<and>
   set (deduplicate fl threshold messages) \<subseteq> set messages \<and>
   count_list (deduplicate fl threshold messages) m \<le> count_list messages m"
  using subseq_deduplicate[of fl threshold messages]
  by (simp add: count_list_subseq set_subseq)

subsection \<open>The chain of three documents\<close>

text \<open>
  With a rounding that keeps the values of \<open>chain_values\<close>, the similarities of the chain
  are 1/2, 0 and 1/2.
\<close>

lemma exact_on_chain:
  assumes "exact_on fl chain_values"
  shows "fl 0 = Finite 0" "fl 1 = Finite 1" "fl (- 1) = Finite (- 1)" "fl 2 = Finite 2"
    "fl 3 = Finite 3" "fl 4 = Finite 4" "fl (1 / 2) = Finite (1 / 2)"
  using assms by (simp_all add: exact_on_def chain_values_def)

lemma exact_on_Finite: "exact_on Finite chain_values"
  by (simp add: exact_on_def chain_values_def)

lemma chain_sim_12:
  assumes "exact_on fl chain_values"
  shows "cosineSimilarity fl (Some [Finite 1, Finite 1, Finite 1, Finite 1])
           (Some [Finite 1, Finite 1, Finite 1, Finite (- 1)]) = Finite (1 / 2)"
  by (simp add: cosineSimilarity_def is_zero_def exact_on_chain[OF assms])

lemma chain_sim_13:
  assumes "exact_on fl chain_values"
  shows "cosineSimilarity fl (Some [Finite 1, Finite 1, Finite 1, Finite 1])
           (Some [Finite 1, Finite 1, Finite (- 1), Finite (- 1)]) = Finite 0"
  by (simp add: cosineSimilarity_def is_zero_def exact_on_chain[OF assms])

lemma chain_sim_23:
  assumes "exact_on fl chain_values"
  shows "cosineSimilarity fl (Some [Finite 1, Finite 1, Finite 1, Finite (- 1)])
           (Some [Finite 1, Finite 1, Finite (- 1), Finite (- 1)]) = Finite (1 / 2)"
  by (simp add: cosineSimilarity_def is_zero_def exact_on_chain[OF assms])

lemma chain_marks:
  assumes "exact_on fl chain_values"
  shows "marks fl (1 / 4) [chain_doc1, chain_doc2, chain_doc3] = [False, True, False]"
  unfolding marks_def
  by (simp add: inner_loop.simps outer_loop.simps chain_doc1_def chain_doc2_def chain_doc3_def
        chain_sim_12[OF assms] chain_sim_13[OF assms])

lemma mixed_result:
  assumes "exact_on fl chain_values"
  shows "deduplicate fl (1 / 4) [chain_doc1, bare_doc, chain_doc2] = [chain_doc1, bare_doc]"
  unfolding deduplicate_def marks_def uniqueMessages_def
  by (simp add: inner_loop.simps outer_loop.simps chain_doc1_def chain_doc2_def bare_doc_def
        chain_sim_12[OF assms] upt_rec)

subsection \<open>Documents without a vector\<close>

lemma cosine_empty_left: "cosineSimilarity fl (Some []) v = Finite 0"
  by (cases v) (auto simp: cosineSimilarity_def is_zero_def)

lemma cosine_empty_right: "cosineSimilarity fl v (Some []) = Finite 0"
  by (cases v) (auto simp: cosineSimilarity_def is_zero_def)

lemma cosine_None_left: "cosineSimilarity fl None v = Finite 0"
  by (simp add: cosineSimilarity_def)

lemma inner_loop_unembedded:
  assumes "0 \<le> th" "\<not> d ! k" "embedding (ms ! k) = None \<or> embedding (ms ! k) = Some []"
  shows "\<not> inner_loop fl th ms i j d ! k"
  using assms
proof (induction fl th ms i j d rule: inner_loop.induct)
  case (1 fl th ms i j d)
  have upd_j: "\<not> d[j := True] ! k"
    if "num_gt (cosineSimilarity fl (embedding (ms ! i)) (embedding (ms ! j))) (Finite th)"
       "embedding (ms ! j) \<noteq> None"
  proof (cases "k = j")
    case True
    with that "1.prems" show ?thesis by (auto simp: cosine_empty_right)
  next
    case False
    with "1.prems" show ?thesis by simp
  qed
  have upd_i: "\<not> d[i := True] ! k"
    if "num_gt (cosineSimilarity fl (embedding (ms ! i)) (embedding (ms ! j))) (Finite th)"
  proof (cases "k = i")
    case True
    with that "1.prems" show ?thesis by (auto simp: cosine_empty_left cosine_None_left)
  next
    case False
    with "1.prems" show ?thesis by simp
  qed
  show ?case
    using "1.IH" "1.prems" upd_j upd_i
    by (subst inner_loop.simps) auto
qed

lemma outer_loop_unembedded:
  assumes "0 \<le> th" "\<not> d ! k" "embedding (ms ! k) = None \<or> embedding (ms ! k) = Some []"
  shows "\<not> outer_loop fl th ms i d ! k"
  using assms
proof (induction fl th ms i d rule: outer_loop.induct)
  case (1 fl th ms i d)
  show ?case
    using "1.IH" "1.prems" inner_loop_unembedded[of th d k ms fl i "i + 1"]
    by (subst outer_loop.simps) auto
qed

text \<open>
  C8. For every list of documents and every threshold in the range (0, 1), a document
  whose embedding is absent (\<open>null\<close>) or empty is never marked as a duplicate, and is
  therefore in the output of \<open>deduplicate\<close>. (An absent embedding is skipped by both loops;
  an empty one is compared, with a similarity of 0, which no threshold of the range lies
  below.) This holds whatever the rounding of the arithmetic.
\<close>

theorem deduplicate_retains_unembedded:
  assumes "0 < threshold" "threshold < 1" "k < length messages"
    and "embedding (messages ! k) = None \<or> embedding (messages ! k) = Some []"
  shows "\<not> marks fl threshold messages ! k \<and>
         messages ! k \<in> set (deduplicate fl threshold messages)"
proof -
  have nm: "\<not> marks fl threshold messages ! k"
    unfolding marks_def
    using assms by (intro outer_loop_unembedded) auto
  then have "k \<in> set (filter (\<lambda>i. \<not> marks fl threshold messages ! i) [0..<length messages])"
    using assms(3) by simp
  then have "messages ! k \<in> set (deduplicate fl threshold messages)"
    unfolding deduplicate_def uniqueMessages_def by (simp only: set_map) (rule imageI)
  with nm show ?thesis by simp
qed

theorem deduplicate_retains_unembedded_witness:
  "(0::real) < 1 / 4 \<and> (1::real) / 4 < 1 \<and>
   1 < length [chain_doc1, bare_doc, chain_doc2] \<and>
   embedding ([chain_doc1, bare_doc, chain_doc2] ! 1) = None \<and>
   \<not> marks Finite (1 / 4) [chain_doc1, bare_doc, chain_doc2] ! 1 \<and>
   [chain_doc1, bare_doc, chain_doc2] ! 1
     \<in> set (deduplicate Finite (1 / 4) [chain_doc1, bare_doc, chain_doc2]) \<and>
   deduplicate Finite (1 / 4) [chain_doc1, bare_doc, chain_doc2] = [chain_doc1, bare_doc]"
proof -
  have h: "(0::real) < 1 / 4" "(1::real) / 4 < 1"
    "1 < length [chain_doc1, bare_doc, chain_doc2]"
    "embedding ([chain_doc1, bare_doc, chain_doc2] ! 1) = None \<or>
     embedding ([chain_doc1, bare_doc, chain_doc2] ! 1) = Some []"
    by (simp_all add: bare_doc_def)
  have e: "embedding ([chain_doc1, bare_doc, chain_doc2] ! 1) = None"
    by (simp add: bare_doc_def)
  show ?thesis
    using h(1,2,3) e deduplicate_retains_unembedded[OF h, of Finite]
      mixed_result[OF exact_on_Finite]
    by blast
qed

subsection \<open>Idempotence\<close>

lemma inner_loop_result:
  assumes "length d = length ms" "i < length ms"
  shows "inner_loop fl th ms i j d ! i \<or>
         (\<forall>b. j \<le> b \<and> b < length ms \<and> \<not> inner_loop fl th ms i j d ! b \<and> embedding (ms ! b) \<noteq> None
              \<longrightarrow> \<not> num_gt (cosineSimilarity fl (embedding (ms ! i)) (embedding (ms ! b))) (Finite th))"
  using assms
proof (induction fl th ms i j d rule: inner_loop.induct)
  case (1 fl th ms i j d)
  show ?case
  proof (cases "j < length ms")
    case False
    then show ?thesis by auto
  next
    case jlt: True
    let ?sim = "num_gt (cosineSimilarity fl (embedding (ms ! i)) (embedding (ms ! j))) (Finite th)"
    consider (skip) "d ! j \<or> embedding (ms ! j) = None"
      | (markj) "\<not> (d ! j \<or> embedding (ms ! j) = None)" "?sim"
                "length (body (ms ! i)) > length (body (ms ! j))"
      | (marki) "\<not> (d ! j \<or> embedding (ms ! j) = None)" "?sim"
                "\<not> length (body (ms ! i)) > length (body (ms ! j))"
      | (nosim) "\<not> (d ! j \<or> embedding (ms ! j) = None)" "\<not> ?sim"
      by fastforce
    then show ?thesis
    proof cases
      case skip
      have eq: "inner_loop fl th ms i j d = inner_loop fl th ms i (j + 1) d"
        using jlt skip by (subst inner_loop.simps) auto
      have IH: "inner_loop fl th ms i (j + 1) d ! i \<or>
         (\<forall>b. j + 1 \<le> b \<and> b < length ms \<and> \<not> inner_loop fl th ms i (j + 1) d ! b
               \<and> embedding (ms ! b) \<noteq> None
              \<longrightarrow> \<not> num_gt (cosineSimilarity fl (embedding (ms ! i)) (embedding (ms ! b))) (Finite th))"
        using "1.IH"(1)[OF jlt skip] "1.prems" by simp
      have atj: "inner_loop fl th ms i (j + 1) d ! j \<or> embedding (ms ! j) = None"
        using skip jlt "1.prems" by (auto intro: inner_loop_keeps)
      show ?thesis
        unfolding eq using IH atj
        by (metis Suc_eq_plus1 Suc_leI le_neq_implies_less)
    next
      case markj
      have eq: "inner_loop fl th ms i j d = inner_loop fl th ms i (j + 1) (d[j := True])"
        using jlt markj by (subst inner_loop.simps) auto
      have IH: "inner_loop fl th ms i (j + 1) (d[j := True]) ! i \<or>
         (\<forall>b. j + 1 \<le> b \<and> b < length ms \<and> \<not> inner_loop fl th ms i (j + 1) (d[j := True]) ! b
               \<and> embedding (ms ! b) \<noteq> None
              \<longrightarrow> \<not> num_gt (cosineSimilarity fl (embedding (ms ! i)) (embedding (ms ! b))) (Finite th))"
        using "1.IH"(2)[OF jlt markj] "1.prems" by simp
      have atj: "inner_loop fl th ms i (j + 1) (d[j := True]) ! j"
        using jlt "1.prems" by (intro inner_loop_keeps) auto
      show ?thesis
        unfolding eq using IH atj
        by (metis Suc_eq_plus1 Suc_leI le_neq_implies_less)
    next
      case marki
      have eq: "inner_loop fl th ms i j d = d[i := True]"
        using jlt marki by (subst inner_loop.simps) auto
      show ?thesis
        unfolding eq using "1.prems" by simp
    next
      case nosim
      have eq: "inner_loop fl th ms i j d = inner_loop fl th ms i (j + 1) d"
        using jlt nosim by (subst inner_loop.simps) auto
      have IH: "inner_loop fl th ms i (j + 1) d ! i \<or>
         (\<forall>b. j + 1 \<le> b \<and> b < length ms \<and> \<not> inner_loop fl th ms i (j + 1) d ! b
               \<and> embedding (ms ! b) \<noteq> None
              \<longrightarrow> \<not> num_gt (cosineSimilarity fl (embedding (ms ! i)) (embedding (ms ! b))) (Finite th))"
        using "1.IH"(3)[OF jlt nosim] "1.prems" by simp
      show ?thesis
        unfolding eq using IH nosim(2)
        by (metis Suc_eq_plus1 Suc_leI le_neq_implies_less)
    qed
  qed
qed

lemma settled_step:
  assumes len: "length d = length ms" and i: "i < length ms" and inv: "settled fl th ms i d"
    and go: "\<not> (d ! i \<or> embedding (ms ! i) = None)"
  shows "settled fl th ms (i + 1) (inner_loop fl th ms i (i + 1) d)"
  unfolding settled_def
proof (intro allI impI)
  fix a b
  let ?d' = "inner_loop fl th ms i (i + 1) d"
  assume h: "a < b \<and> b < length ms \<and> a < i + 1 \<and> \<not> ?d' ! a \<and> \<not> ?d' ! b"
  have nd: "\<not> d ! a" "\<not> d ! b"
    using h len inner_loop_keeps[of d a fl th ms i "i + 1"] inner_loop_keeps[of d b fl th ms i "i + 1"]
    by auto
  show "\<not> similar fl th (ms ! a) (ms ! b)"
  proof (cases "a < i")
    case True
    with inv h nd show ?thesis by (auto simp: settled_def)
  next
    case False
    with h have ai: "a = i" by simp
    from inner_loop_result[OF len i, of fl th "i + 1"] h ai
    have "\<forall>b. i + 1 \<le> b \<and> b < length ms \<and> \<not> ?d' ! b \<and> embedding (ms ! b) \<noteq> None
              \<longrightarrow> \<not> num_gt (cosineSimilarity fl (embedding (ms ! i)) (embedding (ms ! b))) (Finite th)"
      by blast
    from this[rule_format, of b] h ai
    show ?thesis by (auto simp: similar_def)
  qed
qed

lemma settled_skip:
  assumes inv: "settled fl th ms i d" and skip: "d ! i \<or> embedding (ms ! i) = None"
  shows "settled fl th ms (i + 1) d"
  unfolding settled_def
proof (intro allI impI)
  fix a b
  assume h: "a < b \<and> b < length ms \<and> a < i + 1 \<and> \<not> d ! a \<and> \<not> d ! b"
  show "\<not> similar fl th (ms ! a) (ms ! b)"
  proof (cases "a < i")
    case True
    with inv h show ?thesis by (auto simp: settled_def)
  next
    case False
    with h have "a = i" by simp
    with h skip show ?thesis by (auto simp: similar_def)
  qed
qed

lemma outer_loop_settled:
  assumes "length d = length ms" "settled fl th ms i d"
  shows "settled fl th ms (length ms) (outer_loop fl th ms i d)"
  using assms
proof (induction fl th ms i d rule: outer_loop.induct)
  case (1 fl th ms i d)
  show ?case
  proof (cases "i < length ms")
    case False
    then have "outer_loop fl th ms i d = d" by (subst outer_loop.simps) simp
    with "1.prems" False show ?thesis by (auto simp: settled_def)
  next
    case ilt: True
    show ?thesis
    proof (cases "d ! i \<or> embedding (ms ! i) = None")
      case True
      then have "outer_loop fl th ms i d = outer_loop fl th ms (i + 1) d"
        using ilt by (subst outer_loop.simps) auto
      with "1.IH"(1)[OF ilt True "1.prems"(1) settled_skip[OF "1.prems"(2) True]]
      show ?thesis by simp
    next
      case False
      then have "outer_loop fl th ms i d = outer_loop fl th ms (i + 1) (inner_loop fl th ms i (i + 1) d)"
        using ilt by (subst outer_loop.simps) auto
      with "1.IH"(2)[OF ilt False _ settled_step[OF "1.prems"(1) ilt "1.prems"(2) False]]
        "1.prems"(1)
      show ?thesis by (simp add: length_inner_loop)
    qed
  qed
qed

lemma marks_settled: "settled fl th ms (length ms) (marks fl th ms)"
  unfolding marks_def by (rule outer_loop_settled) (simp_all add: settled_def)

text \<open>No two documents of the output are similar.\<close>

lemma deduplicate_no_similar: "sorted_wrt (\<lambda>x y. \<not> similar fl th x y) (deduplicate fl th ms)"
proof -
  let ?M = "marks fl th ms"
  have "sorted_wrt (\<lambda>p q. snd p \<or> snd q \<or> \<not> similar fl th (fst p) (fst q)) (zip ms ?M)"
    using marks_settled[of fl th ms] length_marks[of fl th ms]
    by (auto simp: sorted_wrt_iff_nth_less settled_def)
  then have "sorted_wrt (\<lambda>p q. snd p \<or> snd q \<or> \<not> similar fl th (fst p) (fst q))
               (filter (\<lambda>p. \<not> snd p) (zip ms ?M))"
    by (rule sorted_wrt_filter)
  then have "sorted_wrt (\<lambda>p q. \<not> similar fl th (fst p) (fst q))
               (filter (\<lambda>p. \<not> snd p) (zip ms ?M))"
    by (rule sorted_wrt_mono_rel[rotated]) auto
  then show ?thesis
    by (simp add: deduplicate_def uniqueMessages_zip length_marks sorted_wrt_map)
qed

text \<open>On a list without a similar pair the loops mark nothing.\<close>

lemma inner_loop_idle:
  assumes "\<forall>a b. a < b \<and> b < length ms \<longrightarrow> \<not> similar fl th (ms ! a) (ms ! b)"
    and "i < j" "embedding (ms ! i) \<noteq> None"
  shows "inner_loop fl th ms i j d = d"
  using assms
proof (induction fl th ms i j d rule: inner_loop.induct)
  case (1 fl th ms i j d)
  show ?case
  proof (cases "j < length ms")
    case False
    then show ?thesis by (subst inner_loop.simps) simp
  next
    case True
    have ns: "embedding (ms ! j) \<noteq> None \<Longrightarrow>
        \<not> num_gt (cosineSimilarity fl (embedding (ms ! i)) (embedding (ms ! j))) (Finite th)"
      using "1.prems"(1)[rule_format, of i j] "1.prems"(2,3) True by (auto simp: similar_def)
    show ?thesis
      using "1.IH" "1.prems" True ns
      by (subst inner_loop.simps) auto
  qed
qed

lemma outer_loop_idle:
  assumes "\<forall>a b. a < b \<and> b < length ms \<longrightarrow> \<not> similar fl th (ms ! a) (ms ! b)"
  shows "outer_loop fl th ms i d = d"
  using assms
proof (induction fl th ms i d rule: outer_loop.induct)
  case (1 fl th ms i d)
  show ?case
    using "1.IH" "1.prems" inner_loop_idle[OF "1.prems", of i "i + 1" d]
    by (subst outer_loop.simps) auto
qed

lemma deduplicate_fixed:
  assumes "sorted_wrt (\<lambda>x y. \<not> similar fl th x y) ms"
  shows "deduplicate fl th ms = ms"
proof -
  have "\<forall>a b. a < b \<and> b < length ms \<longrightarrow> \<not> similar fl th (ms ! a) (ms ! b)"
    using assms by (auto simp: sorted_wrt_iff_nth_less)
  then have "marks fl th ms = replicate (length ms) False"
    by (simp add: marks_def outer_loop_idle)
  then show ?thesis
    by (simp add: deduplicate_def uniqueMessages_def map_nth)
qed

text \<open>
  C7. \<open>deduplicate\<close> is idempotent: for every list of documents and every threshold,
  deduplicating the output again returns it unchanged, whatever the rounding of the
  arithmetic.
\<close>

theorem deduplicate_idempotent:
  "deduplicate fl threshold (deduplicate fl threshold messages) = deduplicate fl threshold messages"
  by (rule deduplicate_fixed) (rule deduplicate_no_similar)

subsection \<open>The scenario of the specification\<close>

lemma scenario_sim_12:
  assumes acc: "accurate fl" and e: "\<bar>e - 1 / 100\<bar> \<le> 1 / 1000"
  shows "\<exists>y. cosineSimilarity fl (Some [Finite 1, Finite 0]) (Some [Finite 1, Finite e]) = Finite y
              \<and> 99 / 100 \<le> y"
proof -
  have f0: "fl 0 = Finite 0" and f1: "fl 1 = Finite 1"
    using acc by (simp_all add: accurate_def)
  have mid: "\<exists>y. fl x = Finite y \<and> \<bar>y - x\<bar> \<le> 1 / 1000" if "1 / 2 \<le> x" "x \<le> 2" for x
    using acc that by (simp add: accurate_def)
  have small: "\<exists>y. fl x = Finite y \<and> 0 \<le> y \<and> y \<le> 1 / 500" if "0 \<le> x" "x \<le> 1 / 1000" for x
    using acc that by (simp add: accurate_def)
  have e0: "0 \<le> e" and e1: "e \<le> 11 / 1000" using e by linarith+
  have "e * e \<le> 11 / 1000 * (11 / 1000)"
    using e0 e1 by (intro mult_mono) simp_all
  then have ee: "0 \<le> e * e" "e * e \<le> 1 / 1000" by simp_all
  obtain y1 where y1: "fl (e * e) = Finite y1" "0 \<le> y1" "y1 \<le> 1 / 500"
    using small[OF ee] by blast
  obtain y2 where y2: "fl (1 + y1) = Finite y2" "\<bar>y2 - (1 + y1)\<bar> \<le> 1 / 1000"
    using mid[of "1 + y1"] y1 by auto
  have y2b: "999 / 1000 \<le> y2" "y2 \<le> 1003 / 1000"
    using y1(2,3) y2(2) by linarith+
  have s2: "999 / 1000 \<le> sqrt y2"
    using y2b by (intro real_le_rsqrt) (simp add: power2_eq_square)
  have s2': "sqrt y2 \<le> 1003 / 1000"
    using y2b by (intro real_le_lsqrt) (simp_all add: power2_eq_square)
  obtain y3 where y3: "fl (sqrt y2) = Finite y3" "\<bar>y3 - sqrt y2\<bar> \<le> 1 / 1000"
    using mid[of "sqrt y2"] s2 s2' by auto
  have y3b: "998 / 1000 \<le> y3" "y3 \<le> 1004 / 1000"
    using y3(2) s2 s2' by linarith+
  obtain y4 where y4: "fl y3 = Finite y4" "\<bar>y4 - y3\<bar> \<le> 1 / 1000"
    using mid[of y3] y3b by auto
  have y4b: "997 / 1000 \<le> y4" "y4 \<le> 1005 / 1000"
    using y4(2) y3b by linarith+
  have q: "995 / 1000 \<le> 1 / y4" "1 / y4 \<le> 1004 / 1000"
    using y4b by (simp_all add: field_simps)
  obtain y5 where y5: "fl (1 / y4) = Finite y5" "\<bar>y5 - 1 / y4\<bar> \<le> 1 / 1000"
    using mid[of "1 / y4"] q by auto
  have y5b: "99 / 100 \<le> y5"
    using y5(2) q by linarith
  have nz: "\<not> y2 < 0" "y2 \<noteq> 0" "y4 \<noteq> 0" using y2b y4b by simp_all
  have "cosineSimilarity fl (Some [Finite 1, Finite 0]) (Some [Finite 1, Finite e]) = Finite y5"
    by (simp add: cosineSimilarity_def is_zero_def f0 f1 y1 y2 y3 y4 y5 nz)
  with y5b show ?thesis by blast
qed

lemma scenario_sim_13:
  assumes acc: "accurate fl"
  shows "cosineSimilarity fl (Some [Finite 1, Finite 0]) (Some [Finite 0, Finite 1]) = Finite 0"
proof -
  have f0: "fl 0 = Finite 0" and f1: "fl 1 = Finite 1"
    using acc by (simp_all add: accurate_def)
  show ?thesis
    by (simp add: cosineSimilarity_def is_zero_def f0 f1)
qed

lemma accurate_Finite: "accurate Finite"
  by (simp add: accurate_def)

lemma scenario_result:
  assumes "accurate fl" "\<bar>e - 1 / 100\<bar> \<le> 1 / 1000" "\<bar>t - 95 / 100\<bar> \<le> 1 / 100"
  shows "deduplicate fl t [scenario_doc1, scenario_doc2 e, scenario_doc3]
           = [scenario_doc1, scenario_doc3]"
proof -
  obtain y where y: "cosineSimilarity fl (Some [Finite 1, Finite 0]) (Some [Finite 1, Finite e])
      = Finite y" "99 / 100 \<le> y"
    using scenario_sim_12[OF assms(1,2)] by blast
  have t: "t < y" "\<not> t < 0" using assms(3) y(2) by linarith+
  show ?thesis
    unfolding deduplicate_def marks_def uniqueMessages_def
    by (simp add: inner_loop.simps outer_loop.simps scenario_doc1_def scenario_doc2_def
          scenario_doc3_def y(1) t scenario_sim_13[OF assms(1)] upt_rec)
qed

subsection \<open>What the loops do to a similar pair\<close>

text \<open>Of two similar documents, one is marked.\<close>

lemma similar_pair_marked:
  assumes "i < j" "j < length ms" "similar fl th (ms ! i) (ms ! j)"
  shows "marks fl th ms ! i \<or> marks fl th ms ! j"
proof -
  have "i < length ms" using assms(1,2) by simp
  with marks_settled[of fl th ms] assms show ?thesis
    unfolding settled_def by blast
qed

text \<open>A document is only marked against a similar one that is long enough.\<close>

lemma justified_update_j:
  assumes "justified fl th ms d" "i < j" "j < length ms"
    and "similar fl th (ms ! i) (ms ! j)" "length (body (ms ! i)) > length (body (ms ! j))"
  shows "justified fl th ms (d[j := True])"
  unfolding justified_def
proof (intro allI impI)
  fix m assume m: "m < length ms \<and> d[j := True] ! m"
  show "\<exists>k. marked_against fl th ms m k"
  proof (cases "m = j")
    case True
    with assms have "marked_against fl th ms m i" by (simp add: marked_against_def)
    then show ?thesis ..
  next
    case False
    with m assms(1) show ?thesis by (simp add: justified_def)
  qed
qed

lemma justified_update_i:
  assumes "justified fl th ms d" "i < j" "j < length ms"
    and "similar fl th (ms ! i) (ms ! j)" "\<not> length (body (ms ! i)) > length (body (ms ! j))"
  shows "justified fl th ms (d[i := True])"
  unfolding justified_def
proof (intro allI impI)
  fix m assume m: "m < length ms \<and> d[i := True] ! m"
  show "\<exists>k. marked_against fl th ms m k"
  proof (cases "m = i")
    case True
    with assms have "marked_against fl th ms m j" by (simp add: marked_against_def)
    then show ?thesis ..
  next
    case False
    with m assms(1) show ?thesis by (simp add: justified_def)
  qed
qed

lemma inner_loop_justified:
  assumes "justified fl th ms d" "i < j" "embedding (ms ! i) \<noteq> None"
  shows "justified fl th ms (inner_loop fl th ms i j d)"
  using assms
proof (induction fl th ms i j d rule: inner_loop.induct)
  case (1 fl th ms i j d)
  show ?case
  proof (cases "j < length ms")
    case False
    then show ?thesis using "1.prems"(1) by (subst inner_loop.simps) simp
  next
    case jlt: True
    let ?sim = "num_gt (cosineSimilarity fl (embedding (ms ! i)) (embedding (ms ! j))) (Finite th)"
    have lt: "i < j + 1" using "1.prems"(2) by simp
    consider (skip) "d ! j \<or> embedding (ms ! j) = None"
      | (markj) "\<not> (d ! j \<or> embedding (ms ! j) = None)" "?sim"
                "length (body (ms ! i)) > length (body (ms ! j))"
      | (marki) "\<not> (d ! j \<or> embedding (ms ! j) = None)" "?sim"
                "\<not> length (body (ms ! i)) > length (body (ms ! j))"
      | (nosim) "\<not> (d ! j \<or> embedding (ms ! j) = None)" "\<not> ?sim"
      by fastforce
    then show ?thesis
    proof cases
      case skip
      have "inner_loop fl th ms i j d = inner_loop fl th ms i (j + 1) d"
        using jlt skip by (subst inner_loop.simps) auto
      with "1.IH"(1)[OF jlt skip "1.prems"(1) lt "1.prems"(3)] show ?thesis by simp
    next
      case markj
      have sim: "similar fl th (ms ! i) (ms ! j)"
        using markj "1.prems"(3) by (simp add: similar_def)
      have "inner_loop fl th ms i j d = inner_loop fl th ms i (j + 1) (d[j := True])"
        using jlt markj by (subst inner_loop.simps) auto
      with "1.IH"(2)[OF jlt markj
          justified_update_j[OF "1.prems"(1,2) jlt sim markj(3)] lt "1.prems"(3)]
      show ?thesis by simp
    next
      case marki
      have sim: "similar fl th (ms ! i) (ms ! j)"
        using marki "1.prems"(3) by (simp add: similar_def)
      have "inner_loop fl th ms i j d = d[i := True]"
        using jlt marki by (subst inner_loop.simps) auto
      with justified_update_i[OF "1.prems"(1,2) jlt sim marki(3)] show ?thesis by simp
    next
      case nosim
      have "inner_loop fl th ms i j d = inner_loop fl th ms i (j + 1) d"
        using jlt nosim by (subst inner_loop.simps) auto
      with "1.IH"(3)[OF jlt nosim "1.prems"(1) lt "1.prems"(3)] show ?thesis by simp
    qed
  qed
qed

lemma outer_loop_justified:
  assumes "justified fl th ms d"
  shows "justified fl th ms (outer_loop fl th ms i d)"
  using assms
proof (induction fl th ms i d rule: outer_loop.induct)
  case (1 fl th ms i d)
  show ?case
  proof (cases "i < length ms")
    case False
    then show ?thesis using "1.prems" by (subst outer_loop.simps) simp
  next
    case ilt: True
    show ?thesis
    proof (cases "d ! i \<or> embedding (ms ! i) = None")
      case True
      then have "outer_loop fl th ms i d = outer_loop fl th ms (i + 1) d"
        using ilt by (subst outer_loop.simps) auto
      with "1.IH"(1)[OF ilt True "1.prems"] show ?thesis by simp
    next
      case False
      then have emb: "embedding (ms ! i) \<noteq> None" by simp
      have "outer_loop fl th ms i d
          = outer_loop fl th ms (i + 1) (inner_loop fl th ms i (i + 1) d)"
        using ilt False by (subst outer_loop.simps) auto
      with "1.IH"(2)[OF ilt False inner_loop_justified[OF "1.prems" _ emb]]
      show ?thesis by simp
    qed
  qed
qed

lemma marks_justified: "justified fl th ms (marks fl th ms)"
  unfolding marks_def by (rule outer_loop_justified) (auto simp: justified_def)

text \<open>The positions of the run.\<close>

lemma length_scan_start: "length (scan_start fl th ms i) = length ms"
  by (induction i) (simp_all add: Let_def length_inner_loop)

lemma outer_from_start:
  "i \<le> length ms \<Longrightarrow> outer_loop fl th ms i (scan_start fl th ms i) = marks fl th ms"
proof (induction i)
  case 0
  show ?case by (simp add: marks_def)
next
  case (Suc i)
  then have ilt: "i < length ms" by simp
  have "outer_loop fl th ms i (scan_start fl th ms i)
      = outer_loop fl th ms (Suc i) (scan_start fl th ms (Suc i))"
    using ilt by (subst outer_loop.simps) (simp add: Let_def)
  with Suc.IH ilt show ?case by simp
qed

lemma scan_at_Some:
  assumes "scan_at fl th ms i j = Some d"
  shows "i < j \<and> i < length ms \<and> j \<le> length ms \<and> length d = length ms \<and>
         embedding (ms ! i) \<noteq> None \<and> \<not> scan_start fl th ms i ! i \<and>
         inner_loop fl th ms i j d = inner_loop fl th ms i (i + 1) (scan_start fl th ms i)"
  using assms
proof (induction j arbitrary: d)
  case 0
  then show ?case by simp
next
  case (Suc j)
  show ?case
  proof (cases "j = i")
    case True
    with Suc.prems show ?thesis
      by (auto simp: Let_def length_scan_start split: if_splits)
  next
    case False
    with Suc.prems have ji: "i < j" by (auto split: if_splits)
    with Suc.prems obtain d0 where d0: "scan_at fl th ms i j = Some d0"
      by (auto split: option.splits if_splits)
    note IH = Suc.IH[OF d0]
    have jlt: "j < length ms"
      using Suc.prems ji d0 by (auto split: if_splits)
    let ?sim = "num_gt (cosineSimilarity fl (embedding (ms ! i)) (embedding (ms ! j))) (Finite th)"
    have step: "Some d =
        (if d0 ! j \<or> embedding (ms ! j) = None then Some d0
         else if ?sim
         then (if length (body (ms ! i)) > length (body (ms ! j))
               then Some (d0[j := True]) else None)
         else Some d0)"
      using Suc.prems ji d0 jlt by simp
    show ?thesis
    proof (cases "d0 ! j \<or> embedding (ms ! j) = None")
      case skip: True
      then have dd: "d = d0" using step by simp
      have "inner_loop fl th ms i j d0 = inner_loop fl th ms i (Suc j) d"
        using jlt skip dd by (subst inner_loop.simps) auto
      with IH ji jlt dd show ?thesis by simp
    next
      case noskip: False
      show ?thesis
      proof (cases ?sim)
        case sim: True
        show ?thesis
        proof (cases "length (body (ms ! i)) > length (body (ms ! j))")
          case longer: True
          have dd: "d = d0[j := True]" using step noskip sim longer by simp
          have "inner_loop fl th ms i j d0 = inner_loop fl th ms i (Suc j) d"
            using jlt noskip sim longer dd by (subst inner_loop.simps) auto
          with IH ji jlt dd show ?thesis by simp
        next
          case False
          then show ?thesis using step noskip sim by simp
        qed
      next
        case nosim: False
        have dd: "d = d0" using step noskip nosim by simp
        have "inner_loop fl th ms i j d0 = inner_loop fl th ms i (Suc j) d"
          using jlt noskip nosim dd by (subst inner_loop.simps) auto
        with IH ji jlt dd show ?thesis by simp
      qed
    qed
  qed
qed

lemma marks_via_scan:
  assumes "scan_at fl th ms i j = Some d"
  shows "marks fl th ms = outer_loop fl th ms (i + 1) (inner_loop fl th ms i j d)"
proof -
  note s = scan_at_Some[OF assms]
  have "marks fl th ms = outer_loop fl th ms i (scan_start fl th ms i)"
    using s by (simp add: outer_from_start)
  also have "\<dots> = outer_loop fl th ms (i + 1)
      (inner_loop fl th ms i (i + 1) (scan_start fl th ms i))"
    using s by (subst outer_loop.simps) auto
  finally show ?thesis using s by simp
qed

text \<open>What the scan of \<open>i\<close> does when it arrives at a similar, unmarked \<open>j\<close>.\<close>

lemma scan_marks_shorter:
  assumes at: "scan_at fl th ms i j = Some d" and j: "j < length ms" "\<not> d ! j"
    "embedding (ms ! j) \<noteq> None"
    and sim: "num_gt (cosineSimilarity fl (embedding (ms ! i)) (embedding (ms ! j))) (Finite th)"
  shows "if length (body (ms ! i)) > length (body (ms ! j))
         then marks fl th ms ! j \<and> scan_at fl th ms i (j + 1) = Some (d[j := True])
         else marks fl th ms ! i \<and> scan_at fl th ms i (j + 1) = None \<and>
              inner_loop fl th ms i j d = d[i := True]"
proof -
  note s = scan_at_Some[OF at]
  have ij: "i < j" "i < length ms" "length d = length ms" using s by simp_all
  have m: "marks fl th ms = outer_loop fl th ms (i + 1) (inner_loop fl th ms i j d)"
    by (rule marks_via_scan[OF at])
  show ?thesis
  proof (cases "length (body (ms ! i)) > length (body (ms ! j))")
    case True
    have eq: "inner_loop fl th ms i j d = inner_loop fl th ms i (j + 1) (d[j := True])"
      using j sim True by (subst inner_loop.simps) auto
    have "inner_loop fl th ms i (j + 1) (d[j := True]) ! j"
      using j ij by (intro inner_loop_keeps) simp_all
    then have "outer_loop fl th ms (i + 1)
        (inner_loop fl th ms i (j + 1) (d[j := True])) ! j"
      using j ij by (intro outer_loop_keeps) (simp_all add: length_inner_loop)
    moreover have "scan_at fl th ms i (j + 1) = Some (d[j := True])"
      using at j sim True ij by auto
    ultimately show ?thesis using True m eq by simp
  next
    case False
    have eq: "inner_loop fl th ms i j d = d[i := True]"
      using j sim False by (subst inner_loop.simps) auto
    have "outer_loop fl th ms (i + 1) (d[i := True]) ! i"
      using ij by (intro outer_loop_keeps) simp_all
    moreover have "scan_at fl th ms i (j + 1) = None"
      using at j sim False ij by auto
    ultimately show ?thesis using False m eq by simp
  qed
qed

text \<open>
  C2, as written, fails. It says that of every pair of embedded documents \<open>i < j\<close> with a
  similarity above the threshold the one with the shorter body is marked and the longer
  one survives. The loops skip a document that is already marked, so a pair need not be
  compared at all: in the chain of three documents, at the threshold 0.25, the second
  document is marked against the first, its own scan is skipped, and the third document,
  similar to the second and shorter, is never marked, while the longer second one is
  removed. (The rounding written \<open>Finite\<close> keeps every result; on these documents, whose
  values are all doubles, it is the arithmetic of the source.)
\<close>

theorem shorter_of_similar_pair_survives:
  "exact_on Finite chain_values \<and>
   num_gt (cosineSimilarity Finite (embedding ([chain_doc1, chain_doc2, chain_doc3] ! 1))
                                   (embedding ([chain_doc1, chain_doc2, chain_doc3] ! 2)))
          (Finite (1 / 4)) \<and>
   length (body ([chain_doc1, chain_doc2, chain_doc3] ! 2))
     < length (body ([chain_doc1, chain_doc2, chain_doc3] ! 1)) \<and>
   \<not> marks Finite (1 / 4) [chain_doc1, chain_doc2, chain_doc3] ! 2 \<and>
   marks Finite (1 / 4) [chain_doc1, chain_doc2, chain_doc3] ! 1 \<and>
   deduplicate Finite (1 / 4) [chain_doc1, chain_doc2, chain_doc3] = [chain_doc1, chain_doc3]"
  using chain_sim_23[OF exact_on_Finite] exact_on_Finite
  by (simp add: chain_marks[OF exact_on_Finite] deduplicate_def uniqueMessages_def upt_rec)
     (simp add: chain_doc2_def chain_doc3_def)

text \<open>
  C2, amended. For every pair of embedded documents \<open>i < j\<close> whose cosine similarity, as
  the source computes it, is strictly greater than the threshold, \<open>deduplicate\<close> marks at
  least one of the two as duplicate, so that they are never both in the output. Where
  the scan of \<open>i\<close> arrives at \<open>j\<close> and \<open>j\<close> is not marked yet (the array on arrival is a state of
  the run: the final marks are what the loops make of it), it is the document with the
  shorter body that is marked, and stays marked to the end: \<open>j\<close> when the body of \<open>i\<close> is
  strictly longer (the scan of \<open>i\<close> goes on at \<open>j + 1\<close>), otherwise \<open>i\<close>; when the lengths
  are equal the earlier document \<open>i\<close> is marked, and its scan over further \<open>j\<close> stops. No
  document is ever marked but against a similar document whose body is strictly longer,
  or is as long and comes later. For the three documents of the scenario (embeddings
  \<open>[1, 0]\<close>, \<open>[1, 0.01]\<close>, \<open>[0, 1]\<close>, body lengths 100, 50, 80) at the threshold 0.95,
  \<open>deduplicate\<close> returns the first and the third, in that order; this holds for every
  rounding as accurate as \<open>accurate\<close> asks and for the numbers near 0.01 and 0.95 that the
  literals are read as.
\<close>

theorem similar_pair_marks_shorter:
  assumes "i < j" "j < length messages"
    and "embedding (messages ! i) \<noteq> None" "embedding (messages ! j) \<noteq> None"
    and "num_gt (cosineSimilarity fl (embedding (messages ! i)) (embedding (messages ! j)))
                (Finite threshold)"
  shows "(marks fl threshold messages ! i \<or> marks fl threshold messages ! j) \<and>
         (scan_at fl threshold messages i j = Some isDuplicate \<and> \<not> isDuplicate ! j \<longrightarrow>
            marks fl threshold messages
              = outer_loop fl threshold messages (i + 1)
                  (inner_loop fl threshold messages i j isDuplicate) \<and>
            (if length (body (messages ! i)) > length (body (messages ! j))
             then marks fl threshold messages ! j \<and>
                  scan_at fl threshold messages i (j + 1) = Some (isDuplicate[j := True])
             else marks fl threshold messages ! i \<and>
                  scan_at fl threshold messages i (j + 1) = None \<and>
                  inner_loop fl threshold messages i j isDuplicate = isDuplicate[i := True])) \<and>
         (\<forall>m. m < length messages \<and> marks fl threshold messages ! m \<longrightarrow>
              (\<exists>k. marked_against fl threshold messages m k)) \<and>
         (accurate fl \<and> \<bar>e - 1 / 100\<bar> \<le> 1 / 1000 \<and> \<bar>t - 95 / 100\<bar> \<le> 1 / 100 \<longrightarrow>
            deduplicate fl t [scenario_doc1, scenario_doc2 e, scenario_doc3]
              = [scenario_doc1, scenario_doc3])"
proof (intro conjI impI)
  have "similar fl threshold (messages ! i) (messages ! j)"
    using assms(3,4,5) by (simp add: similar_def)
  with assms(1,2) show "marks fl threshold messages ! i \<or> marks fl threshold messages ! j"
    by (rule similar_pair_marked)
next
  assume "scan_at fl threshold messages i j = Some isDuplicate \<and> \<not> isDuplicate ! j"
  then show "marks fl threshold messages
      = outer_loop fl threshold messages (i + 1)
          (inner_loop fl threshold messages i j isDuplicate)"
    using marks_via_scan[of fl threshold messages i j isDuplicate] by blast
next
  assume "scan_at fl threshold messages i j = Some isDuplicate \<and> \<not> isDuplicate ! j"
  then show "if length (body (messages ! i)) > length (body (messages ! j))
     then marks fl threshold messages ! j \<and>
          scan_at fl threshold messages i (j + 1) = Some (isDuplicate[j := True])
     else marks fl threshold messages ! i \<and>
          scan_at fl threshold messages i (j + 1) = None \<and>
          inner_loop fl threshold messages i j isDuplicate = isDuplicate[i := True]"
    using scan_marks_shorter[of fl threshold messages i j isDuplicate] assms(2,4,5) by blast
next
  show "\<forall>m. m < length messages \<and> marks fl threshold messages ! m \<longrightarrow>
      (\<exists>k. marked_against fl threshold messages m k)"
    using marks_justified[of fl threshold messages] by (simp add: justified_def)
next
  assume "accurate fl \<and> \<bar>e - 1 / 100\<bar> \<le> 1 / 1000 \<and> \<bar>t - 95 / 100\<bar> \<le> 1 / 100"
  then show "deduplicate fl t [scenario_doc1, scenario_doc2 e, scenario_doc3]
      = [scenario_doc1, scenario_doc3]"
    by (intro scenario_result) simp_all
qed

theorem similar_pair_marks_shorter_witness:
  "(0::nat) < 1 \<and> 1 < length [chain_doc1, chain_doc2, chain_doc3] \<and>
   embedding ([chain_doc1, chain_doc2, chain_doc3] ! 0) \<noteq> None \<and>
   embedding ([chain_doc1, chain_doc2, chain_doc3] ! 1) \<noteq> None \<and>
   num_gt (cosineSimilarity Finite (embedding ([chain_doc1, chain_doc2, chain_doc3] ! 0))
                                   (embedding ([chain_doc1, chain_doc2, chain_doc3] ! 1)))
          (Finite (1 / 4)) \<and>
   scan_at Finite (1 / 4) [chain_doc1, chain_doc2, chain_doc3] 0 1
     = Some [False, False, False] \<and>
   length (body ([chain_doc1, chain_doc2, chain_doc3] ! 0))
     > length (body ([chain_doc1, chain_doc2, chain_doc3] ! 1)) \<and>
   marks Finite (1 / 4) [chain_doc1, chain_doc2, chain_doc3]
     = outer_loop Finite (1 / 4) [chain_doc1, chain_doc2, chain_doc3] (0 + 1)
         (inner_loop Finite (1 / 4) [chain_doc1, chain_doc2, chain_doc3] 0 1
            [False, False, False]) \<and>
   marks Finite (1 / 4) [chain_doc1, chain_doc2, chain_doc3] ! 1 \<and>
   scan_at Finite (1 / 4) [chain_doc1, chain_doc2, chain_doc3] 0 (1 + 1)
     = Some ([False, False, False][1 := True]) \<and>
   (\<exists>k. marked_against Finite (1 / 4) [chain_doc1, chain_doc2, chain_doc3] 1 k) \<and>
   accurate Finite \<and>
   deduplicate Finite (95 / 100) [scenario_doc1, scenario_doc2 (1 / 100), scenario_doc3]
     = [scenario_doc1, scenario_doc3]"
proof -
  let ?ms = "[chain_doc1, chain_doc2, chain_doc3]"
  have h: "(0::nat) < 1" "1 < length ?ms"
    "embedding (?ms ! 0) \<noteq> None" "embedding (?ms ! 1) \<noteq> None"
    "num_gt (cosineSimilarity Finite (embedding (?ms ! 0)) (embedding (?ms ! 1)))
            (Finite (1 / 4))"
    using chain_sim_12[OF exact_on_Finite]
    by (simp_all add: chain_doc1_def chain_doc2_def)
  have at: "scan_at Finite (1 / 4) ?ms 0 1 = Some [False, False, False] \<and>
            \<not> [False, False, False] ! 1"
    by (simp add: chain_doc1_def)
  have longer: "length (body (?ms ! 0)) > length (body (?ms ! 1))"
    by (simp add: chain_doc1_def chain_doc2_def)
  have sc: "accurate Finite \<and> \<bar>(1::real) / 100 - 1 / 100\<bar> \<le> 1 / 1000 \<and>
            \<bar>(95::real) / 100 - 95 / 100\<bar> \<le> 1 / 100"
    by (simp add: accurate_Finite)
  note T = similar_pair_marks_shorter[OF h, of "[False, False, False]" "1 / 100" "95 / 100"]
  note T2 = T[THEN conjunct2, THEN conjunct1, rule_format, OF at, unfolded if_P[OF longer]]
  note T3 = T[THEN conjunct2, THEN conjunct2, THEN conjunct1, rule_format, of 1]
  note T4 = T[THEN conjunct2, THEN conjunct2, THEN conjunct2, rule_format, OF sc]
  have m1: "1 < length ?ms \<and> marks Finite (1 / 4) ?ms ! 1"
    using h(2) T2 by blast
  show ?thesis
    using h at longer T2 T3[OF m1] T4 sc by blast
qed

section \<open>Properties of the cache\<close>

lemma length_update_alist:
  "length (AList.update k v al) = (if k \<in> fst ` set al then length al else Suc (length al))"
  by (induction al) auto

lemma update_fresh: "k \<notin> fst ` set al \<Longrightarrow> AList.update k v al = al @ [(k, v)]"
  by (induction al) auto

lemma maxSize_cache_set: "maxSize (cache_set getKey c t v) = maxSize c"
  by (simp add: cache_set_def Let_def)

lemma distinct_cache_set:
  "distinct (map fst (cache c)) \<Longrightarrow> distinct (map fst (cache (cache_set getKey c t v)))"
  by (auto simp: cache_set_def Let_def distinct_update distinct_delete split: list.splits)

text \<open>With distinct keys, deleting the first key removes the first entry and no other.\<close>

lemma cache_set_full:
  assumes "length (cache c) \<ge> maxSize c" "distinct (map fst (cache c))"
  shows "cache (cache_set getKey c t v) = AList.update (getKey t) v (tl (cache c))"
  using assms by (auto simp: cache_set_def Let_def split: list.splits)

lemma cache_set_room:
  assumes "length (cache c) < maxSize c"
  shows "cache (cache_set getKey c t v) = AList.update (getKey t) v (cache c)"
  using assms by (auto simp: cache_set_def Let_def)

lemma length_cache_set:
  assumes "0 < maxSize c" "length (cache c) \<le> maxSize c"
  shows "length (cache (cache_set getKey c t v)) \<le> maxSize c"
proof (cases "length (cache c) < maxSize c")
  case True
  then show ?thesis
    by (simp add: cache_set_room length_update_alist)
next
  case False
  with assms have full: "length (cache c) = maxSize c" by simp
  then obtain k x rest where c: "cache c = (k, x) # rest"
    using assms(1) by (cases "cache c") auto
  have "length (AList.delete k rest) \<le> length rest" by (rule length_delete_le)
  then show ?thesis
    using full c by (auto simp: cache_set_def Let_def length_update_alist)
qed

lemma cache_set_all_snoc:
  "cache_set_all getKey c (puts @ [(t, v)]) = cache_set getKey (cache_set_all getKey c puts) t v"
  by (simp add: cache_set_all_def)

lemma cache_set_all_keeps:
  assumes "distinct (map fst (cache c))"
  shows "maxSize (cache_set_all getKey c puts) = maxSize c \<and>
         distinct (map fst (cache (cache_set_all getKey c puts)))"
proof (induction puts rule: rev_induct)
  case Nil
  with assms show ?case by (simp add: cache_set_all_def)
next
  case (snoc p puts)
  obtain t v where p: "p = (t, v)" by (cases p)
  show ?case
    using snoc by (simp add: p cache_set_all_snoc maxSize_cache_set distinct_cache_set)
qed

lemma cache_set_all_length:
  assumes "0 < maxSize c" "length (cache c) \<le> maxSize c" "distinct (map fst (cache c))"
  shows "length (cache (cache_set_all getKey c puts)) \<le> maxSize c"
proof (induction puts rule: rev_induct)
  case Nil
  with assms show ?case by (simp add: cache_set_all_def)
next
  case (snoc p puts)
  obtain t v where p: "p = (t, v)" by (cases p)
  show ?case
    using snoc assms(1) cache_set_all_keeps[OF assms(3), of getKey puts]
      length_cache_set[of "cache_set_all getKey c puts" getKey t v]
    by (simp add: p cache_set_all_snoc)
qed

text \<open>
  First in, first out: after puts under pairwise different keys, the cache holds the
  last \<open>n\<close> of them, in the order they were put.
\<close>

lemma cache_fifo:
  fixes puts :: "(string \<times> 'v) list"
  assumes "0 < n" "distinct (map (getKey \<circ> fst) puts)"
  shows "cache (cache_set_all getKey (EmbeddingCache_new n) puts) =
         drop (length puts - n) (map (\<lambda>(t, v). (getKey t, v)) puts)"
  using assms(2)
proof (induction puts rule: rev_induct)
  case Nil
  show ?case by (simp add: cache_set_all_def EmbeddingCache_new_def)
next
  case (snoc p puts)
  obtain t v where p: "p = (t, v)" by (cases p)
  let ?c = "cache_set_all getKey (EmbeddingCache_new n) puts"
  let ?kvs = "map (\<lambda>(t, v). (getKey t, v)) puts"
  have IH: "cache ?c = drop (length puts - n) ?kvs"
    using snoc by simp
  have inv: "maxSize ?c = n" "distinct (map fst (cache ?c))"
    using cache_set_all_keeps[of "EmbeddingCache_new n" getKey puts]
    by (simp_all add: EmbeddingCache_new_def)
  have len: "length (cache ?c) \<le> n"
    using cache_set_all_length[of "EmbeddingCache_new n" getKey puts] assms(1)
    by (simp add: EmbeddingCache_new_def)
  have fresh: "getKey t \<notin> fst ` set ?kvs"
    using snoc.prems by (auto simp: p image_iff)
  have upd: "AList.update (getKey t) v al = al @ [(getKey t, v)]"
    if "set al \<subseteq> set ?kvs" for al
  proof -
    from that fresh have "getKey t \<notin> fst ` set al" by auto
    then show ?thesis by (rule update_fresh)
  qed
  show ?case
  proof (cases "length puts < n")
    case True
    then have "length (cache ?c) < maxSize ?c" using IH inv by simp
    then have "cache (cache_set getKey ?c t v) = AList.update (getKey t) v (cache ?c)"
      by (rule cache_set_room)
    also have "\<dots> = cache ?c @ [(getKey t, v)]"
      unfolding IH by (intro upd) (rule set_drop_subset)
    finally show ?thesis
      using True IH by (simp add: p cache_set_all_snoc)
  next
    case False
    then have "length (cache ?c) \<ge> maxSize ?c" using IH inv by simp
    then have "cache (cache_set getKey ?c t v) = AList.update (getKey t) v (tl (cache ?c))"
      using inv(2) by (rule cache_set_full)
    also have "tl (cache ?c) = drop (Suc (length puts - n)) ?kvs"
      using IH by (simp add: drop_Suc tl_drop)
    also have "AList.update (getKey t) v \<dots> = \<dots> @ [(getKey t, v)]"
      by (intro upd) (rule set_drop_subset)
    finally show ?thesis
      using False assms(1) by (simp add: p cache_set_all_snoc Suc_diff_le)
  qed
qed

text \<open>
  C4. For a cache constructed with a maximum \<open>n\<close> of at least one entry (the service
  constructs it with 1000) and every sequence of \<open>set\<close> calls on it: the size never
  exceeds \<open>n\<close>; a \<open>set\<close> on the cache at capacity removes exactly the first entry of the
  map, the one inserted longest ago, and then sets the new entry (for a new key: the
  rest of the map followed by the new entry). The order is that of insertion: a \<open>set\<close>
  on a key that is present leaves the order of the keys as it is, \<open>get\<close> returns a value
  and no cache, and after puts under pairwise different keys the cache holds the most
  recent \<open>n\<close> of them in order.
\<close>

theorem cache_bounded_fifo:
  fixes puts :: "(string \<times> 'v) list"
  assumes "0 < n" and "c = cache_set_all getKey (EmbeddingCache_new n) puts"
  shows "length (cache c) \<le> n \<and> maxSize c = n \<and>
         (length (cache c) = n \<longrightarrow>
            cache (cache_set getKey c text vec) = AList.update (getKey text) vec (tl (cache c)) \<and>
            length (cache (cache_set getKey c text vec)) \<le> n \<and>
            (getKey text \<notin> fst ` set (cache c) \<longrightarrow>
               cache (cache_set getKey c text vec) = tl (cache c) @ [(getKey text, vec)])) \<and>
         (getKey text \<in> fst ` set (cache c) \<longrightarrow> length (cache c) < n \<longrightarrow>
            map fst (cache (cache_set getKey c text vec)) = map fst (cache c)) \<and>
         (distinct (map (getKey \<circ> fst) puts) \<longrightarrow>
            cache c = drop (length puts - n) (map (\<lambda>(t, v). (getKey t, v)) puts))"
proof -
  have inv: "maxSize c = n" "distinct (map fst (cache c))"
    using cache_set_all_keeps[of "EmbeddingCache_new n" getKey puts] assms(2)
    by (simp_all add: EmbeddingCache_new_def)
  have len: "length (cache c) \<le> n"
    using cache_set_all_length[of "EmbeddingCache_new n" getKey puts] assms
    by (simp add: EmbeddingCache_new_def)
  have full: "cache (cache_set getKey c text vec) = AList.update (getKey text) vec (tl (cache c))"
    if "length (cache c) = n"
    using that inv by (intro cache_set_full) simp_all
  have full_len: "length (cache (cache_set getKey c text vec)) \<le> n"
    using length_cache_set[of c getKey "text" vec] assms(1) inv(1) len by simp
  have full_new: "cache (cache_set getKey c text vec) = tl (cache c) @ [(getKey text, vec)]"
    if "length (cache c) = n" "getKey text \<notin> fst ` set (cache c)"
  proof -
    have "getKey text \<notin> fst ` set (tl (cache c))"
      using that(2) by (cases "cache c") auto
    then show ?thesis
      using full[OF that(1)] by (simp add: update_fresh)
  qed
  have same_order: "map fst (cache (cache_set getKey c text vec)) = map fst (cache c)"
    if "getKey text \<in> fst ` set (cache c)" "length (cache c) < n"
    using that inv(1) by (simp add: cache_set_room update_keys)
  have fifo: "cache c = drop (length puts - n) (map (\<lambda>(t, v). (getKey t, v)) puts)"
    if "distinct (map (getKey \<circ> fst) puts)"
    unfolding assms(2) using assms(1) that by (rule cache_fifo)
  show ?thesis
    using inv(1) len full full_len full_new same_order fifo by blast
qed

theorem cache_bounded_fifo_witness:
  "(0::nat) < 2 \<and>
   cache (cache_set_all (\<lambda>t. t) (EmbeddingCache_new 2) [(''a'', 1::nat), (''b'', 2)])
     = [(''a'', 1), (''b'', 2)] \<and>
   length (cache (cache_set_all (\<lambda>t. t) (EmbeddingCache_new 2) [(''a'', 1::nat), (''b'', 2)])) \<le> 2 \<and>
   cache (cache_set (\<lambda>t. t)
            (cache_set_all (\<lambda>t. t) (EmbeddingCache_new 2) [(''a'', 1::nat), (''b'', 2)]) ''c'' 3)
     = [(''b'', 2), (''c'', 3)] \<and>
   distinct (map ((\<lambda>t. t) \<circ> fst) [(''a'', 1::nat), (''b'', 2), (''c'', 3)]) \<and>
   cache (cache_set_all (\<lambda>t. t) (EmbeddingCache_new 2) [(''a'', 1::nat), (''b'', 2), (''c'', 3)])
     = [(''b'', 2), (''c'', 3)] \<and>
   map fst (cache (cache_set (\<lambda>t. t)
                     (cache_set_all (\<lambda>t. t) (EmbeddingCache_new 2) [(''a'', 1::nat)]) ''a'' 7))
     = [''a'']"
proof -
  let ?c = "cache_set_all (\<lambda>t. t) (EmbeddingCache_new 2) [(''a'', 1::nat), (''b'', 2)]"
  let ?c1 = "cache_set_all (\<lambda>t. t) (EmbeddingCache_new 2) [(''a'', 1::nat)]"
  have c: "cache ?c = [(''a'', 1), (''b'', 2)]"
    by (simp add: cache_set_all_def cache_set_def EmbeddingCache_new_def)
  have c1: "cache ?c1 = [(''a'', 1)]"
    by (simp add: cache_set_all_def cache_set_def EmbeddingCache_new_def)
  have h: "(0::nat) < 2" by simp
  have d: "distinct (map ((\<lambda>t. t) \<circ> fst) [(''a'', 1::nat), (''b'', 2), (''c'', 3)])" by simp
  from cache_bounded_fifo[OF h refl, of "\<lambda>t. t" "[(''a'', 1::nat), (''b'', 2)]" "''c''" 3]
  have "length (cache ?c) \<le> 2"
    and "length (cache ?c) = 2 \<longrightarrow> ''c'' \<notin> fst ` set (cache ?c) \<longrightarrow>
           cache (cache_set (\<lambda>t. t) ?c ''c'' 3) = tl (cache ?c) @ [(''c'', 3)]"
    by blast+
  moreover
  from cache_bounded_fifo[OF h refl, of "\<lambda>t. t" "[(''a'', 1::nat), (''b'', 2), (''c'', 3)]" "''c''" 3] d
  have "cache (cache_set_all (\<lambda>t. t) (EmbeddingCache_new 2) [(''a'', 1::nat), (''b'', 2), (''c'', 3)])
      = drop (length [(''a'', 1::nat), (''b'', 2), (''c'', 3)] - 2)
          (map (\<lambda>(t, v). (t, v)) [(''a'', 1::nat), (''b'', 2), (''c'', 3)])"
    by blast
  moreover
  from cache_bounded_fifo[OF h refl, of "\<lambda>t. t" "[(''a'', 1::nat)]" "''a''" 7]
  have "''a'' \<in> fst ` set (cache ?c1) \<longrightarrow> length (cache ?c1) < 2 \<longrightarrow>
          map fst (cache (cache_set (\<lambda>t. t) ?c1 ''a'' 7)) = map fst (cache ?c1)"
    by blast
  ultimately show ?thesis
    using c c1 by simp
qed

text \<open>
  C10. On a cache that holds exactly \<open>maxSize\<close> entries, \<open>set\<close> removes the first entry
  of the map, the one inserted longest ago, whether or not the key of the text is
  present. So when the key is present and is not the oldest one, the entry removed is
  another one, the value under the key is replaced where it stands, and the cache is
  left with \<open>maxSize - 1\<close> entries, below capacity. (The keys of a \<open>Map\<close> are pairwise
  different; that is the first assumption.)
\<close>

theorem overwrite_at_capacity_evicts_oldest:
  assumes "distinct (map fst (cache c))" and "length (cache c) = maxSize c"
  shows "cache (cache_set getKey c text vec) = AList.update (getKey text) vec (tl (cache c)) \<and>
         (getKey text \<in> fst ` set (tl (cache c)) \<longrightarrow>
            fst (hd (cache c)) \<noteq> getKey text \<and>
            fst (hd (cache c)) \<notin> fst ` set (cache (cache_set getKey c text vec)) \<and>
            map_of (cache (cache_set getKey c text vec)) (getKey text) = Some vec \<and>
            length (cache (cache_set getKey c text vec)) = maxSize c - 1 \<and>
            length (cache (cache_set getKey c text vec)) < maxSize c)"
proof -
  have eq: "cache (cache_set getKey c text vec) = AList.update (getKey text) vec (tl (cache c))"
    using assms by (intro cache_set_full) simp_all
  have rest: "fst (hd (cache c)) \<noteq> getKey text \<and>
            fst (hd (cache c)) \<notin> fst ` set (cache (cache_set getKey c text vec)) \<and>
            map_of (cache (cache_set getKey c text vec)) (getKey text) = Some vec \<and>
            length (cache (cache_set getKey c text vec)) = maxSize c - 1 \<and>
            length (cache (cache_set getKey c text vec)) < maxSize c"
    if present: "getKey text \<in> fst ` set (tl (cache c))"
  proof -
    obtain k x rest where c: "cache c = (k, x) # rest"
      using present by (cases "cache c") auto
    have k: "k \<notin> fst ` set rest" using assms(1) c by (auto simp: image_iff)
    with present c have ne: "k \<noteq> getKey text" by auto
    have "fst ` set (AList.update (getKey text) vec rest) = fst ` set rest"
      using present c by (auto simp: dom_update)
    with k have gone: "k \<notin> fst ` set (AList.update (getKey text) vec rest)" by simp
    have len: "length (AList.update (getKey text) vec rest) = length rest"
      using present c by (simp add: length_update_alist)
    show ?thesis
      using ne gone len assms(2) c
      by (simp add: eq update_conv')
  qed
  from eq rest show ?thesis by blast
qed

theorem overwrite_at_capacity_evicts_oldest_witness:
  "distinct (map fst [(''a'', 1::nat), (''b'', 2)]) \<and>
   length [(''a'', 1::nat), (''b'', 2)] = 2 \<and>
   ''b'' \<in> fst ` set (tl [(''a'', 1::nat), (''b'', 2)]) \<and>
   cache (cache_set (\<lambda>t. t) \<lparr>cache = [(''a'', 1::nat), (''b'', 2)], maxSize = 2\<rparr> ''b'' 9)
     = [(''b'', 9)] \<and>
   length (cache (cache_set (\<lambda>t. t) \<lparr>cache = [(''a'', 1::nat), (''b'', 2)], maxSize = 2\<rparr> ''b'' 9))
     = 2 - 1"
proof -
  let ?c = "\<lparr>cache = [(''a'', 1::nat), (''b'', 2)], maxSize = 2\<rparr>"
  have h: "distinct (map fst (cache ?c))" "length (cache ?c) = maxSize ?c" by simp_all
  have p: "''b'' \<in> fst ` set (tl (cache ?c))" by simp
  from overwrite_at_capacity_evicts_oldest[OF h, of "\<lambda>t. t" "''b''" 9] p
  have "cache (cache_set (\<lambda>t. t) ?c ''b'' 9) = AList.update ''b'' 9 (tl (cache ?c))"
    and "length (cache (cache_set (\<lambda>t. t) ?c ''b'' 9)) = maxSize ?c - 1"
    by blast+
  then show ?thesis by simp
qed

section \<open>Properties of the rate limiter\<close>

lemma throttle_pass_params:
  "maxRequests (snd (throttle_pass now rl)) = maxRequests rl"
  "timeWindow (snd (throttle_pass now rl)) = timeWindow rl"
  by (simp_all add: throttle_pass_def Let_def)

lemma length_filter_mono:
  "(\<And>x. x \<in> set xs \<Longrightarrow> P x \<Longrightarrow> Q x) \<Longrightarrow> length (filter P xs) \<le> length (filter Q xs)"
  by (induction xs) auto

text \<open>What a later reading keeps, an earlier reading has kept.\<close>

lemma filter_later:
  fixes W :: int
  assumes "now \<le> x"
  shows "filter (\<lambda>t. now - t < W \<and> x - t < W) ts = filter (\<lambda>t. x - t < W) ts"
  using assms by (induction ts) auto

lemma pass_wait_tracks:
  assumes "tracks rl hist lo" "lo \<le> now" "throttle_pass now rl = (Some w, rl')"
  shows "tracks rl' hist now"
proof -
  have rl': "requestTimestamps rl' = filter (\<lambda>t. now - t < timeWindow rl) (requestTimestamps rl)"
     and W: "timeWindow rl' = timeWindow rl"
    using assms(3) by (auto simp: throttle_pass_def Let_def split: if_splits)
  show ?thesis
    unfolding tracks_def rl' W
    using assms(1,2) by (auto simp: filter_later tracks_def)
qed

lemma pass_admit:
  assumes tr: "tracks rl hist lo" and lo: "lo \<le> now" and p: "throttle_pass now rl = (None, rl')"
    and b: "bounded (maxRequests rl) (timeWindow rl) hist"
  shows "tracks rl' (hist @ [now]) now \<and> bounded (maxRequests rl) (timeWindow rl) (hist @ [now])"
proof -
  let ?W = "timeWindow rl"
  have rl': "requestTimestamps rl' = filter (\<lambda>t. now - t < ?W) (requestTimestamps rl) @ [now]"
     and W: "timeWindow rl' = ?W"
     and room: "length (filter (\<lambda>t. now - t < ?W) (requestTimestamps rl)) < maxRequests rl"
    using p by (auto simp: throttle_pass_def Let_def split: if_splits)
  have le: "\<forall>t\<in>set hist. t \<le> now" using tr lo by (auto simp: tracks_def)
  have t1: "tracks rl' (hist @ [now]) now"
    unfolding tracks_def rl' W
    using tr lo le by (auto simp: filter_later tracks_def)
  have "filter (\<lambda>t. now - t < ?W) (requestTimestamps rl) = filter (\<lambda>t. now - t < ?W) hist"
    using tr lo by (simp add: tracks_def)
  with room have cnt: "length (filter (\<lambda>t. now - t < ?W) hist) < maxRequests rl" by simp
  have "length (filter (in_window ?W T) (hist @ [now])) \<le> maxRequests rl" for T
  proof (cases "now \<le> T")
    case True
    have "length (filter (in_window ?W T) hist) \<le> length (filter (\<lambda>t. now - t < ?W) hist)"
      using True le by (intro length_filter_mono) (auto simp: in_window_def)
    with cnt show ?thesis by simp
  next
    case False
    then have "\<not> in_window ?W T now" by (simp add: in_window_def)
    with b show ?thesis by (simp add: bounded_def)
  qed
  with t1 show ?thesis by (simp add: bounded_def)
qed

lemma passes_bounded:
  assumes "tracks rl hist lo" "sorted (lo # nows)"
    "bounded (maxRequests rl) (timeWindow rl) hist"
  shows "bounded (maxRequests rl) (timeWindow rl) (hist @ admissions rl nows)"
  using assms
proof (induction nows arbitrary: rl hist lo)
  case Nil
  then show ?case by (simp add: admissions_def)
next
  case (Cons now nows)
  obtain r rl' where p: "throttle_pass now rl = (r, rl')" by (cases "throttle_pass now rl")
  have par: "maxRequests rl' = maxRequests rl" "timeWindow rl' = timeWindow rl"
    using throttle_pass_params[of now rl] p by simp_all
  have lo: "lo \<le> now" and srt: "sorted (now # nows)" using Cons.prems(2) by auto
  show ?case
  proof (cases r)
    case (Some w)
    have "tracks rl' hist now"
      using pass_wait_tracks[OF Cons.prems(1) lo] p Some by simp
    from Cons.IH[OF this srt] Cons.prems(3) par
    have "bounded (maxRequests rl) (timeWindow rl) (hist @ admissions rl' nows)" by simp
    moreover have "admissions rl (now # nows) = admissions rl' nows"
      using p Some by (simp add: admissions_def)
    ultimately show ?thesis by simp
  next
    case None
    have "tracks rl' (hist @ [now]) now \<and> bounded (maxRequests rl) (timeWindow rl) (hist @ [now])"
      using pass_admit[OF Cons.prems(1) lo _ Cons.prems(3)] p None by simp
    with Cons.IH[of rl' "hist @ [now]" now] srt par
    have "bounded (maxRequests rl) (timeWindow rl) ((hist @ [now]) @ admissions rl' nows)" by simp
    moreover have "admissions rl (now # nows) = now # admissions rl' nows"
      using p None by (simp add: admissions_def split: prod.splits)
    ultimately show ?thesis by simp
  qed
qed

lemma admissions_bounded:
  assumes "sorted nows" "requestTimestamps rl = []"
  shows "length (filter (\<lambda>t. T - timeWindow rl < t \<and> t \<le> T) (admissions rl nows)) \<le> maxRequests rl"
proof (cases nows)
  case Nil
  then show ?thesis by (simp add: admissions_def)
next
  case (Cons now rest)
  have "tracks rl [] now" using assms(2) by (simp add: tracks_def)
  moreover have "sorted (now # nows)" using assms(1) Cons by simp
  moreover have "bounded (maxRequests rl) (timeWindow rl) []" by (simp add: bounded_def)
  ultimately have "bounded (maxRequests rl) (timeWindow rl) ([] @ admissions rl nows)"
    by (rule passes_bounded)
  then show ?thesis by (simp add: bounded_def in_window_def[abs_def])
qed

text \<open>
  With room for at least one request, \<open>throttle\<close> returns: each wait lasts until the
  oldest timestamp has left the window. The call is a sequence of passes at increasing
  clock readings, the last of which admits it.
\<close>

lemma throttle_returns:
  assumes "0 < maxRequests rl"
  shows "\<exists>rl' nows. throttle rl now = Some (rl', last (now # nows)) \<and>
           sorted (now # nows) \<and> passes rl (now # nows) = (rl', [last (now # nows)]) \<and>
           maxRequests rl' = maxRequests rl \<and> timeWindow rl' = timeWindow rl"
  using assms
proof (induction "length (filter (\<lambda>t. now - t < timeWindow rl) (requestTimestamps rl))"
        arbitrary: rl now rule: less_induct)
  case less
  let ?W = "timeWindow rl"
  let ?ts = "filter (\<lambda>t. now - t < ?W) (requestTimestamps rl)"
  show ?case
  proof (cases "length ?ts \<ge> maxRequests rl")
    case False
    let ?rl' = "rl\<lparr>requestTimestamps := ?ts @ [now]\<rparr>"
    have p: "throttle_pass now rl = (None, ?rl')"
      using False by (simp add: throttle_pass_def Let_def)
    have "throttle rl now = Some (?rl', now)"
      by (subst throttle.simps) (simp add: p)
    moreover have "passes rl [now] = (?rl', [now])"
      by (simp add: p)
    ultimately show ?thesis
      by (intro exI[of _ ?rl'] exI[of _ "[]"]) simp
  next
    case True
    with less.prems obtain oldest rest where ts: "?ts = oldest # rest"
      by (cases ?ts) auto
    let ?w = "?W - (now - oldest) + 100"
    let ?rl1 = "rl\<lparr>requestTimestamps := ?ts\<rparr>"
    have p: "throttle_pass now rl = (Some ?w, ?rl1)"
      using True ts by (simp add: throttle_pass_def Let_def)
    have "oldest \<in> set ?ts" using ts by simp
    then have old: "now - oldest < ?W" by simp
    then have wpos: "0 < ?w" by simp
    let ?now' = "now + max 0 ?w"
    have now': "?now' = oldest + ?W + 100" using wpos by simp
    have "\<not> (?now' - oldest < ?W)" unfolding now' by simp
    then have "length (filter (\<lambda>t. ?now' - t < ?W) ?ts) < length ?ts"
      using \<open>oldest \<in> set ?ts\<close> by (intro length_filter_less[of oldest]) auto
    then have dec: "length (filter (\<lambda>t. ?now' - t < timeWindow ?rl1) (requestTimestamps ?rl1))
        < length ?ts" by simp
    have "0 < maxRequests ?rl1" using less.prems by simp
    from less.hyps[OF dec this]
    obtain rl' nows where r:
      "throttle ?rl1 ?now' = Some (rl', last (?now' # nows))"
      "sorted (?now' # nows)" "passes ?rl1 (?now' # nows) = (rl', [last (?now' # nows)])"
      "maxRequests rl' = maxRequests rl" "timeWindow rl' = timeWindow rl"
      by auto
    have "throttle rl now = throttle ?rl1 ?now'"
      by (subst throttle.simps) (simp add: p)
    moreover have "passes rl (now # ?now' # nows) = passes ?rl1 (?now' # nows)"
      by (simp add: p)
    moreover have "sorted (now # ?now' # nows)"
      using r(2) wpos by auto
    ultimately show ?thesis
      using r by (intro exI[of _ rl'] exI[of _ "?now' # nows"]) simp
  qed
qed

lemma passes_append:
  "passes rl (xs @ ys) =
     (case passes rl xs of (rl1, a1) \<Rightarrow> case passes rl1 ys of (rl2, a2) \<Rightarrow> (rl2, a1 @ a2))"
  by (induction xs arbitrary: rl) (auto split: prod.splits option.splits)

lemma sorted_le_last: "sorted xs \<Longrightarrow> x \<in> set xs \<Longrightarrow> x \<le> last xs"
  by (induction xs) (auto split: if_splits)

text \<open>Sequential calls of \<open>throttle\<close> are one sorted sequence of passes.\<close>

lemma acquisitions_passes:
  assumes "0 < maxRequests rl"
  shows "\<exists>rl' nows. acquisitions rl now gaps = Some (rl', last (now # nows), admissions rl nows) \<and>
           sorted (now # nows) \<and> length (admissions rl nows) = length gaps"
  using assms
proof (induction gaps arbitrary: rl now)
  case Nil
  show ?case by (intro exI[of _ rl] exI[of _ "[]"]) (simp add: admissions_def)
next
  case (Cons gap gaps)
  let ?s = "now + int gap"
  from throttle_returns[OF Cons.prems, of ?s]
  obtain rl1 nows1 where t: "throttle rl ?s = Some (rl1, last (?s # nows1))"
    "sorted (?s # nows1)" "passes rl (?s # nows1) = (rl1, [last (?s # nows1)])"
    "maxRequests rl1 = maxRequests rl"
    by blast
  let ?t = "last (?s # nows1)"
  have pos: "0 < maxRequests rl1" using t(4) Cons.prems by simp
  from Cons.IH[OF pos, of ?t]
  obtain rl2 nows2 where a: "acquisitions rl1 ?t gaps = Some (rl2, last (?t # nows2), admissions rl1 nows2)"
    "sorted (?t # nows2)" "length (admissions rl1 nows2) = length gaps"
    by blast
  let ?nows = "(?s # nows1) @ nows2"
  have p: "passes rl ?nows = (fst (passes rl1 nows2), ?t # admissions rl1 nows2)"
    by (simp only: passes_append t(3)) (simp add: admissions_def split: prod.splits)
  then have adm: "admissions rl ?nows = ?t # admissions rl1 nows2"
    by (simp add: admissions_def)
  have "\<forall>x\<in>set (?s # nows1). \<forall>y\<in>set nows2. x \<le> y"
  proof (intro ballI)
    fix x y assume "x \<in> set (?s # nows1)" "y \<in> set nows2"
    then have "x \<le> ?t" "?t \<le> y"
      using sorted_le_last[OF t(2)] a(2) by auto
    then show "x \<le> y" by simp
  qed
  then have "sorted ?nows"
    using t(2) a(2) by (auto simp: sorted_append)
  moreover from this have "\<forall>x\<in>set ?nows. ?s \<le> x" by auto
  then have "\<forall>x\<in>set ?nows. now \<le> x" by force
  ultimately have srt: "sorted (now # ?nows)" by simp
  have lst: "last (now # ?nows) = last (?t # nows2)"
    by (cases nows2) simp_all
  show ?case
    using t(1) a(1,3) adm srt lst
    by (intro exI[of _ rl2] exI[of _ ?nows]) simp
qed

text \<open>
  C5. For every sequential use of a limiter that starts without timestamps, at clock
  readings that do not go back, and every time \<open>T\<close>: the admissions whose timestamps lie
  in the trailing window of length \<open>timeWindow\<close> ending at \<open>T\<close> (\<open>T - timeWindow < t \<le> T\<close>,
  the window as the limiter's own filter reads it) are at most \<open>maxRequests\<close>. This
  holds for every sequence of passes through the body of \<open>throttle\<close>, however long the
  timers take; and for every sequence of calls of \<open>throttle\<close> made one after another,
  each of which is admitted when \<open>maxRequests\<close> is positive.
\<close>

theorem throttle_admission_bound:
  assumes "requestTimestamps rl = []"
  shows "(sorted nows \<longrightarrow>
            length (filter (\<lambda>t. T - timeWindow rl < t \<and> t \<le> T) (admissions rl nows))
              \<le> maxRequests rl) \<and>
         (0 < maxRequests rl \<longrightarrow>
            (\<exists>rl' now' admitted.
               acquisitions rl now gaps = Some (rl', now', admitted) \<and>
               length admitted = length gaps \<and>
               length (filter (\<lambda>t. T - timeWindow rl < t \<and> t \<le> T) admitted) \<le> maxRequests rl))"
proof (intro conjI impI)
  assume "sorted nows"
  then show "length (filter (\<lambda>t. T - timeWindow rl < t \<and> t \<le> T) (admissions rl nows))
      \<le> maxRequests rl"
    using assms by (rule admissions_bounded)
next
  assume "0 < maxRequests rl"
  from acquisitions_passes[OF this, of now gaps]
  obtain rl' nows where a: "acquisitions rl now gaps = Some (rl', last (now # nows), admissions rl nows)"
    "sorted (now # nows)" "length (admissions rl nows) = length gaps"
    by blast
  have "sorted nows" using a(2) by simp
  then have "length (filter (\<lambda>t. T - timeWindow rl < t \<and> t \<le> T) (admissions rl nows))
      \<le> maxRequests rl"
    using assms by (rule admissions_bounded)
  with a show "\<exists>rl' now' admitted.
       acquisitions rl now gaps = Some (rl', now', admitted) \<and>
       length admitted = length gaps \<and>
       length (filter (\<lambda>t. T - timeWindow rl < t \<and> t \<le> T) admitted) \<le> maxRequests rl"
    by blast
qed

lemma example_admissions:
  "admissions (RateLimiter_new 2 10) [0, 1, 2, 11, 12] = [0, 1, 11, 12]"
  by (simp add: admissions_def throttle_pass_def RateLimiter_new_def Let_def)

theorem throttle_admission_bound_witness:
  "requestTimestamps (RateLimiter_new 2 10) = [] \<and> sorted [0, 1, 2, 11, 12 :: int] \<and>
   admissions (RateLimiter_new 2 10) [0, 1, 2, 11, 12] = [0, 1, 11, 12] \<and>
   length (filter (\<lambda>t. 12 - timeWindow (RateLimiter_new 2 10) < t \<and> t \<le> 12)
             (admissions (RateLimiter_new 2 10) [0, 1, 2, 11, 12]))
     \<le> maxRequests (RateLimiter_new 2 10) \<and>
   0 < maxRequests (RateLimiter_new 2 10) \<and>
   (\<exists>rl' now' admitted.
      acquisitions (RateLimiter_new 2 10) 0 [0, 0, 0] = Some (rl', now', admitted) \<and>
      length admitted = length [0::nat, 0, 0] \<and>
      length (filter (\<lambda>t. 12 - timeWindow (RateLimiter_new 2 10) < t \<and> t \<le> 12) admitted)
        \<le> maxRequests (RateLimiter_new 2 10))"
proof -
  have h: "requestTimestamps (RateLimiter_new 2 10) = []"
    by (simp add: RateLimiter_new_def)
  have s: "sorted [0, 1, 2, 11, 12 :: int]" by simp
  have m: "0 < maxRequests (RateLimiter_new 2 10)"
    by (simp add: RateLimiter_new_def)
  show ?thesis
    using h s m example_admissions
      throttle_admission_bound[OF h, of "[0, 1, 2, 11, 12]" 12 0 "[0, 0, 0]"]
    by blast
qed

section \<open>Properties of the embedding service\<close>

subsection \<open>The batch\<close>

lemma throttle_admits:
  assumes "0 < maxRequests rl"
  obtains rl' t where "throttle rl now = Some (rl', t)" "maxRequests rl' = maxRequests rl"
  using throttle_returns[OF assms, of now] by blast

text \<open>With room in its limiter for at least one request, \<open>getEmbedding\<close> settles.\<close>

lemma getEmbedding_returns:
  assumes "0 < maxRequests (rateLimiter svc)"
  shows "\<exists>r svc' w'. getEmbedding getKey net svc w text = Some (r, svc', w') \<and>
           maxRequests (rateLimiter svc') = maxRequests (rateLimiter svc)"
proof (cases "truthy (cached_value getKey svc text)")
  case True
  then show ?thesis by (simp add: getEmbedding_def)
next
  case False
  obtain rl t where th: "throttle (rateLimiter svc) (clock w) = Some (rl, t)"
    and mr: "maxRequests rl = maxRequests (rateLimiter svc)"
    using throttle_admits[OF assms] by blast
  show ?thesis
    using False th mr
    by (auto simp: getEmbedding_def Let_def split: prod.splits sum.splits)
qed

lemma embed_loop_run:
  assumes "0 < maxRequests (rateLimiter svc)"
  shows "\<exists>rs svc' w'. outcomes getKey net svc w ms = Some rs \<and> length rs = length ms \<and>
           embed_loop getKey net len ms svc w out count progress warnings =
             Some (out @ map (\<lambda>(m, r). with_embedding m (attached r)) (zip ms rs),
                   progress @ map (\<lambda>k. (k, len)) [count + 1..<count + length ms + 1],
                   warnings @ failures ms rs, svc', w')"
  using assms
proof (induction ms arbitrary: svc w out count progress warnings)
  case Nil
  then show ?case by (simp add: failures_def)
next
  case (Cons m ms)
  obtain r svc1 w1 where g: "getEmbedding getKey net svc w (body m) = Some (r, svc1, w1)"
    and mr: "maxRequests (rateLimiter svc1) = maxRequests (rateLimiter svc)"
    using getEmbedding_returns[OF Cons.prems] by blast
  have pos: "0 < maxRequests (rateLimiter svc1)" using mr Cons.prems by simp
  have upt: "[count + 1..<count + length (m # ms) + 1]
      = (count + 1) # [count + 1 + 1..<count + 1 + length ms + 1]"
    by (simp add: upt_rec)
  show ?case
  proof (cases r)
    case (Inl e)
    from Cons.IH[OF pos, of w1 "out @ [with_embedding m (Some JNull)]" "count + 1"
        "progress @ [(count + 1, len)]" "warnings @ [(msg_id m, e)]"]
    obtain rs svc' w' where "outcomes getKey net svc1 w1 ms = Some rs" "length rs = length ms"
        "embed_loop getKey net len ms svc1 w1 (out @ [with_embedding m (Some JNull)]) (count + 1)
           (progress @ [(count + 1, len)]) (warnings @ [(msg_id m, e)]) =
         Some ((out @ [with_embedding m (Some JNull)])
                 @ map (\<lambda>(m, r). with_embedding m (attached r)) (zip ms rs),
               (progress @ [(count + 1, len)])
                 @ map (\<lambda>k. (k, len)) [count + 1 + 1..<count + 1 + length ms + 1],
               (warnings @ [(msg_id m, e)]) @ failures ms rs, svc', w')"
      by blast
    then show ?thesis
      using g Inl unfolding upt
      by (intro exI[of _ "r # rs"] exI[of _ svc'] exI[of _ w']) (simp add: failures_def)
  next
    case (Inr v)
    from Cons.IH[OF pos, of w1 "out @ [with_embedding m v]" "count + 1"
        "progress @ [(count + 1, len)]" warnings]
    obtain rs svc' w' where "outcomes getKey net svc1 w1 ms = Some rs" "length rs = length ms"
        "embed_loop getKey net len ms svc1 w1 (out @ [with_embedding m v]) (count + 1)
           (progress @ [(count + 1, len)]) warnings =
         Some ((out @ [with_embedding m v])
                 @ map (\<lambda>(m, r). with_embedding m (attached r)) (zip ms rs),
               (progress @ [(count + 1, len)])
                 @ map (\<lambda>k. (k, len)) [count + 1 + 1..<count + 1 + length ms + 1],
               warnings @ failures ms rs, svc', w')"
      by blast
    then show ?thesis
      using g Inr unfolding upt
      by (intro exI[of _ "r # rs"] exI[of _ svc'] exI[of _ w']) (simp add: failures_def)
  qed
qed

lemma truncate_with_embedding: "message.truncate (with_embedding m v) = m"
  by (simp add: message.truncate_def with_embedding_def)

lemma map_truncate_zip:
  "length rs = length ms \<Longrightarrow>
   map message.truncate (map (\<lambda>(m, r). with_embedding m (attached r)) (zip ms rs)) = ms"
  by (induction ms rs rule: list_induct2') (simp_all add: truncate_with_embedding)

lemma map_embedding_zip:
  "length rs = length ms \<Longrightarrow>
   map embedding (map (\<lambda>(m, r). with_embedding m (attached r)) (zip ms rs)) = map attached rs"
  by (induction ms rs rule: list_induct2') (simp_all add: with_embedding_def)

text \<open>A pass at a reading that finds room admits at once.\<close>

lemma throttle_room:
  assumes "length (filter (\<lambda>t. now - t < timeWindow rl) (requestTimestamps rl)) < maxRequests rl"
  shows "throttle rl now =
           Some (rl\<lparr>requestTimestamps :=
                      filter (\<lambda>t. now - t < timeWindow rl) (requestTimestamps rl) @ [now]\<rparr>, now)"
  using assms by (subst throttle.simps) (simp add: throttle_pass_def Let_def)

lemma default_service_new: "EmbeddingService_new default_settings = Inr default_service"
  by (simp add: EmbeddingService_new_def default_settings_def default_service_def local_config_def
        settings_lookup_def)

lemma unknown_service_new: "EmbeddingService_new unknown_settings = Inr unknown_service"
  by (simp add: EmbeddingService_new_def unknown_settings_def default_settings_def
        unknown_service_def settings_lookup_def)

text \<open>
  C1. For every list of messages, every network (so every outcome of every provider
  call) and every service whose limiter admits at least one request per window (the
  constructor sets 45): \<open>generateEmbeddingsForMessages\<close> returns, with exactly one entry
  per message, in input order, each entry the message with an embedding attached; a
  message whose \<open>getEmbedding\<close> call fails is in the output with embedding \<open>null\<close> (and is
  warned about), the others carry what the call returned; \<open>onProgress\<close> is called once
  per message, in order, with \<open>(1, total)\<close>, ..., \<open>(total, total)\<close>.
\<close>

theorem batch_tolerates_failures:
  assumes "0 < maxRequests (rateLimiter svc)"
  shows "\<exists>out progress warnings svc' w' rs.
           generateEmbeddingsForMessages getKey net svc w messages
             = Some (out, progress, warnings, svc', w') \<and>
           outcomes getKey net svc w messages = Some rs \<and>
           length out = length messages \<and>
           map message.truncate out = messages \<and>
           map embedding out = map attached rs \<and>
           progress = map (\<lambda>k. (k, length messages)) [1..<length messages + 1] \<and>
           warnings = failures messages rs"
proof -
  from embed_loop_run[OF assms, of getKey net w messages "length messages" "[]" 0 "[]" "[]"]
  obtain rs svc' w' where r: "outcomes getKey net svc w messages = Some rs"
    "length rs = length messages"
    "generateEmbeddingsForMessages getKey net svc w messages =
       Some (map (\<lambda>(m, r). with_embedding m (attached r)) (zip messages rs),
             map (\<lambda>k. (k, length messages)) [1..<length messages + 1],
             failures messages rs, svc', w')"
    by (auto simp: generateEmbeddingsForMessages_def)
  show ?thesis
    using r by (simp add: map_truncate_zip map_embedding_zip del: map_map)
qed

lemma scenario_batch:
  "\<exists>svc' w'. generateEmbeddingsForMessages (\<lambda>t. t) third_fails default_service start five_messages =
     Some ([\<lparr>msg_id = 1, body = ''one'', embedding = Some (JArr [JNum 1, JNum 0])\<rparr>,
            \<lparr>msg_id = 2, body = ''two'', embedding = Some (JArr [JNum 1, JNum 0])\<rparr>,
            \<lparr>msg_id = 3, body = ''three'', embedding = Some JNull\<rparr>,
            \<lparr>msg_id = 4, body = ''four'', embedding = Some (JArr [JNum 1, JNum 0])\<rparr>,
            \<lparr>msg_id = 5, body = ''five'', embedding = Some (JArr [JNum 1, JNum 0])\<rparr>],
           [(1, 5), (2, 5), (3, 5), (4, 5), (5, 5)],
           [(3, NetworkError)], svc', w')"
  by (simp add: generateEmbeddingsForMessages_def five_messages_def getEmbedding_def
        cached_value_def cache_get_def cache_set_def default_service_def local_config_def start_def
        EmbeddingCache_new_def RateLimiter_new_def throttle_room
        getOllamaEmbedding_def fetch_def third_fails_def vector_response_def
        ollama_request_def with_embedding_def Let_def)

theorem batch_tolerates_failures_witness:
  "0 < maxRequests (rateLimiter default_service) \<and>
   (\<exists>out progress warnings svc' w' rs.
      generateEmbeddingsForMessages (\<lambda>t. t) third_fails default_service start five_messages
        = Some (out, progress, warnings, svc', w') \<and>
      outcomes (\<lambda>t. t) third_fails default_service start five_messages = Some rs \<and>
      length out = length five_messages \<and>
      map message.truncate out = five_messages \<and>
      map embedding out = map attached rs \<and>
      progress = map (\<lambda>k. (k, length five_messages)) [1..<length five_messages + 1] \<and>
      warnings = failures five_messages rs) \<and>
   (\<exists>svc' w'.
      generateEmbeddingsForMessages (\<lambda>t. t) third_fails default_service start five_messages =
        Some ([\<lparr>msg_id = 1, body = ''one'', embedding = Some (JArr [JNum 1, JNum 0])\<rparr>,
               \<lparr>msg_id = 2, body = ''two'', embedding = Some (JArr [JNum 1, JNum 0])\<rparr>,
               \<lparr>msg_id = 3, body = ''three'', embedding = Some JNull\<rparr>,
               \<lparr>msg_id = 4, body = ''four'', embedding = Some (JArr [JNum 1, JNum 0])\<rparr>,
               \<lparr>msg_id = 5, body = ''five'', embedding = Some (JArr [JNum 1, JNum 0])\<rparr>],
              [(1, 5), (2, 5), (3, 5), (4, 5), (5, 5)],
              [(3, NetworkError)], svc', w'))"
proof -
  have h: "0 < maxRequests (rateLimiter default_service)"
    by (simp add: default_service_def local_config_def RateLimiter_new_def)
  show ?thesis
    using h batch_tolerates_failures[OF h, of "\<lambda>t. t" third_fails start five_messages]
      scenario_batch
    by (intro conjI) assumption+
qed

subsection \<open>A provider name the service does not know\<close>

lemma getEmbedding_unknown:
  assumes "provider svc \<noteq> ''ollama''" "provider svc \<noteq> ''gemini''"
    and "cache (service_cache svc) = []" "0 < maxRequests (rateLimiter svc)"
  shows "\<exists>rl now. throttle (rateLimiter svc) (clock w) = Some (rl, now) \<and>
           getEmbedding getKey net svc w text =
             Some (Inl (UnsupportedProvider (provider svc)), svc\<lparr>rateLimiter := rl\<rparr>, w\<lparr>clock := now\<rparr>) \<and>
           maxRequests rl = maxRequests (rateLimiter svc)"
proof -
  obtain rl t where th: "throttle (rateLimiter svc) (clock w) = Some (rl, t)"
    and mr: "maxRequests rl = maxRequests (rateLimiter svc)"
    using throttle_admits[OF assms(4)] by blast
  have "\<not> truthy (cached_value getKey svc text)"
    using assms(3) by (simp add: cached_value_def cache_get_def)
  then have "getEmbedding getKey net svc w text =
      Some (Inl (UnsupportedProvider (provider svc)), svc\<lparr>rateLimiter := rl\<rparr>, w\<lparr>clock := t\<rparr>)"
    using assms(1,2) th by (simp add: getEmbedding_def Let_def)
  with th mr show ?thesis by blast
qed

text \<open>The batch never reaches a provider: no request is sent and nothing is cached.\<close>

lemma embed_loop_unknown:
  assumes "provider svc \<noteq> ''ollama''" "provider svc \<noteq> ''gemini''"
    and "cache (service_cache svc) = []" "0 < maxRequests (rateLimiter svc)"
  shows "\<exists>svc' w'. embed_loop getKey net len ms svc w out count progress warnings =
           Some (out @ map (\<lambda>m. with_embedding m (Some JNull)) ms,
                 progress @ map (\<lambda>k. (k, len)) [count + 1..<count + length ms + 1],
                 warnings @ map (\<lambda>m. (msg_id m, UnsupportedProvider (provider svc))) ms,
                 svc', w') \<and>
           requests w' = requests w \<and> cache (service_cache svc') = [] \<and>
           provider svc' = provider svc"
  using assms
proof (induction ms arbitrary: svc w out count progress warnings)
  case Nil
  then show ?case by simp
next
  case (Cons m ms)
  from getEmbedding_unknown[OF Cons.prems, of w getKey net "body m"]
  obtain rl now where g: "getEmbedding getKey net svc w (body m) =
      Some (Inl (UnsupportedProvider (provider svc)), svc\<lparr>rateLimiter := rl\<rparr>, w\<lparr>clock := now\<rparr>)"
    and mr: "maxRequests rl = maxRequests (rateLimiter svc)"
    by blast
  let ?svc1 = "svc\<lparr>rateLimiter := rl\<rparr>"
  have inv: "provider ?svc1 \<noteq> ''ollama''" "provider ?svc1 \<noteq> ''gemini''"
    "cache (service_cache ?svc1) = []" "0 < maxRequests (rateLimiter ?svc1)"
    using Cons.prems mr by simp_all
  have upt: "[count + 1..<count + length (m # ms) + 1]
      = (count + 1) # [count + 1 + 1..<count + 1 + length ms + 1]"
    by (simp add: upt_rec)
  from Cons.IH[OF inv, of "w\<lparr>clock := now\<rparr>" "out @ [with_embedding m (Some JNull)]" "count + 1"
      "progress @ [(count + 1, len)]"
      "warnings @ [(msg_id m, UnsupportedProvider (provider svc))]"]
  obtain svc' w' where run: "embed_loop getKey net len ms ?svc1 (w\<lparr>clock := now\<rparr>)
        (out @ [with_embedding m (Some JNull)]) (count + 1) (progress @ [(count + 1, len)])
        (warnings @ [(msg_id m, UnsupportedProvider (provider svc))]) =
      Some ((out @ [with_embedding m (Some JNull)]) @ map (\<lambda>m. with_embedding m (Some JNull)) ms,
            (progress @ [(count + 1, len)])
              @ map (\<lambda>k. (k, len)) [count + 1 + 1..<count + 1 + length ms + 1],
            (warnings @ [(msg_id m, UnsupportedProvider (provider svc))])
              @ map (\<lambda>m. (msg_id m, UnsupportedProvider (provider ?svc1))) ms,
            svc', w')"
    and keep: "requests w' = requests (w\<lparr>clock := now\<rparr>)" "cache (service_cache svc') = []"
      "provider svc' = provider ?svc1"
    by blast
  show ?case
    using g run keep unfolding upt
    by (intro exI[of _ svc'] exI[of _ w']) simp
qed

text \<open>
  C3, as written, fails. It says that constructing the client with a provider name that
  is neither supported one raises an error at construction, which is not absorbed as a
  per-document failure. The constructor checks nothing: with the provider \<open>openai\<close> it
  returns a service, and the batch over five messages returns all five with \<open>embedding:
  null\<close>, each warned about with the unsupported-provider error.
\<close>

theorem unknown_provider_constructs:
  "EmbeddingService_new unknown_settings = Inr unknown_service \<and>
   \<not> isl (EmbeddingService_new unknown_settings) \<and>
   (\<exists>svc' w'.
      generateEmbeddingsForMessages (\<lambda>t. t) third_fails unknown_service start five_messages =
        Some ([\<lparr>msg_id = 1, body = ''one'', embedding = Some JNull\<rparr>,
               \<lparr>msg_id = 2, body = ''two'', embedding = Some JNull\<rparr>,
               \<lparr>msg_id = 3, body = ''three'', embedding = Some JNull\<rparr>,
               \<lparr>msg_id = 4, body = ''four'', embedding = Some JNull\<rparr>,
               \<lparr>msg_id = 5, body = ''five'', embedding = Some JNull\<rparr>],
              [(1, 5), (2, 5), (3, 5), (4, 5), (5, 5)],
              [(1, UnsupportedProvider ''openai''), (2, UnsupportedProvider ''openai''),
               (3, UnsupportedProvider ''openai''), (4, UnsupportedProvider ''openai''),
               (5, UnsupportedProvider ''openai'')],
              svc', w'))"
proof -
  have "\<exists>svc' w'.
      generateEmbeddingsForMessages (\<lambda>t. t) third_fails unknown_service start five_messages =
        Some ([\<lparr>msg_id = 1, body = ''one'', embedding = Some JNull\<rparr>,
               \<lparr>msg_id = 2, body = ''two'', embedding = Some JNull\<rparr>,
               \<lparr>msg_id = 3, body = ''three'', embedding = Some JNull\<rparr>,
               \<lparr>msg_id = 4, body = ''four'', embedding = Some JNull\<rparr>,
               \<lparr>msg_id = 5, body = ''five'', embedding = Some JNull\<rparr>],
              [(1, 5), (2, 5), (3, 5), (4, 5), (5, 5)],
              [(1, UnsupportedProvider ''openai''), (2, UnsupportedProvider ''openai''),
               (3, UnsupportedProvider ''openai''), (4, UnsupportedProvider ''openai''),
               (5, UnsupportedProvider ''openai'')],
              svc', w')"
    by (simp add: generateEmbeddingsForMessages_def five_messages_def getEmbedding_def
        cached_value_def cache_get_def unknown_service_def start_def
        EmbeddingCache_new_def RateLimiter_new_def throttle_room with_embedding_def Let_def)
  then show ?thesis
    by (simp add: unknown_service_new)
qed

text \<open>
  C3, amended. Constructing the client with a provider name that is neither supported
  one (and not empty: an empty name falls back to the local provider) does not raise:
  the constructor returns a service under that name. The error is raised by
  \<open>getEmbedding\<close>, for every text, after the throttle has admitted the call: the throttle
  of the new service admits it at once and records the clock reading, and \<open>getEmbedding\<close>
  throws with the limiter as the throttle left it. In a batch the error is absorbed for
  each document, which gets \<open>embedding: null\<close> and a warning, and the batch returns with
  one entry per message and the full progress, without a request sent or a value cached.
\<close>

theorem unsupported_provider_fails_per_document:
  assumes "settings_provider s = Some p" "p \<noteq> []" "p \<noteq> ''ollama''" "p \<noteq> ''gemini''"
  shows "\<exists>svc. EmbeddingService_new s = Inr svc \<and> provider svc = p \<and>
           (\<exists>rl now. throttle (rateLimiter svc) (clock w) = Some (rl, now) \<and>
              requestTimestamps rl = [clock w] \<and> now = clock w \<and>
              getEmbedding getKey net svc w text =
                Some (Inl (UnsupportedProvider p), svc\<lparr>rateLimiter := rl\<rparr>, w\<lparr>clock := now\<rparr>)) \<and>
           (\<exists>svc' w'. generateEmbeddingsForMessages getKey net svc w messages =
              Some (map (\<lambda>m. with_embedding m (Some JNull)) messages,
                    map (\<lambda>k. (k, length messages)) [1..<length messages + 1],
                    map (\<lambda>m. (msg_id m, UnsupportedProvider p)) messages, svc', w') \<and>
              requests w' = requests w \<and> cache (service_cache svc') = [] \<and> provider svc' = p)"
proof -
  let ?svc = "\<lparr>provider = p, config = settings_lookup s p,
               service_cache = EmbeddingCache_new 1000,
               rateLimiter = RateLimiter_new 45 (60 * 1000)\<rparr>"
  let ?rl = "(RateLimiter_new 45 (60 * 1000))\<lparr>requestTimestamps := [clock w]\<rparr>"
  have new: "EmbeddingService_new s = Inr ?svc"
    using assms(1,2) by (simp add: EmbeddingService_new_def)
  have inv: "provider ?svc \<noteq> ''ollama''" "provider ?svc \<noteq> ''gemini''"
    "cache (service_cache ?svc) = []" "0 < maxRequests (rateLimiter ?svc)"
    using assms(3,4) by (simp_all add: EmbeddingCache_new_def RateLimiter_new_def)
  have th: "throttle (rateLimiter ?svc) (clock w) = Some (?rl, clock w)"
    by (simp add: throttle_room RateLimiter_new_def)
  have miss: "\<not> truthy (cached_value getKey ?svc text)"
    by (simp add: cached_value_def cache_get_def EmbeddingCache_new_def)
  have get: "getEmbedding getKey net ?svc w text =
      Some (Inl (UnsupportedProvider p), ?svc\<lparr>rateLimiter := ?rl\<rparr>, w\<lparr>clock := clock w\<rparr>)"
    using miss th assms(3,4) by (simp add: getEmbedding_def Let_def)
  have one: "\<exists>rl now. throttle (rateLimiter ?svc) (clock w) = Some (rl, now) \<and>
      requestTimestamps rl = [clock w] \<and> now = clock w \<and>
      getEmbedding getKey net ?svc w text =
        Some (Inl (UnsupportedProvider p), ?svc\<lparr>rateLimiter := rl\<rparr>, w\<lparr>clock := now\<rparr>)"
    using th get by (intro exI[of _ ?rl] exI[of _ "clock w"]) simp
  from embed_loop_unknown[OF inv, of getKey net "length messages" messages w "[]" 0 "[]" "[]"]
  have batch: "\<exists>svc' w'. generateEmbeddingsForMessages getKey net ?svc w messages =
      Some (map (\<lambda>m. with_embedding m (Some JNull)) messages,
            map (\<lambda>k. (k, length messages)) [1..<length messages + 1],
            map (\<lambda>m. (msg_id m, UnsupportedProvider p)) messages, svc', w') \<and>
      requests w' = requests w \<and> cache (service_cache svc') = [] \<and> provider svc' = p"
    by (simp add: generateEmbeddingsForMessages_def)
  have "EmbeddingService_new s = Inr ?svc \<and> provider ?svc = p" using new by simp
  with one batch show ?thesis by blast
qed

theorem unsupported_provider_fails_per_document_witness:
  "settings_provider unknown_settings = Some ''openai'' \<and> ''openai'' \<noteq> [] \<and>
   ''openai'' \<noteq> ''ollama'' \<and> ''openai'' \<noteq> ''gemini'' \<and>
   (\<exists>svc. EmbeddingService_new unknown_settings = Inr svc \<and> provider svc = ''openai'' \<and>
      (\<exists>rl now. throttle (rateLimiter svc) (clock start) = Some (rl, now) \<and>
         requestTimestamps rl = [clock start] \<and> now = clock start \<and>
         getEmbedding (\<lambda>t. t) third_fails svc start ''one'' =
           Some (Inl (UnsupportedProvider ''openai''), svc\<lparr>rateLimiter := rl\<rparr>, start\<lparr>clock := now\<rparr>)) \<and>
      (\<exists>svc' w'. generateEmbeddingsForMessages (\<lambda>t. t) third_fails svc start five_messages =
         Some (map (\<lambda>m. with_embedding m (Some JNull)) five_messages,
               map (\<lambda>k. (k, length five_messages)) [1..<length five_messages + 1],
               map (\<lambda>m. (msg_id m, UnsupportedProvider ''openai'')) five_messages, svc', w') \<and>
         requests w' = requests start \<and> cache (service_cache svc') = [] \<and>
         provider svc' = ''openai''))"
proof -
  have h: "settings_provider unknown_settings = Some ''openai''" "''openai'' \<noteq> []"
    "''openai'' \<noteq> ''ollama''" "''openai'' \<noteq> ''gemini''"
    by (simp_all add: unknown_settings_def)
  show ?thesis
    using h unsupported_provider_fails_per_document[OF h, of start "\<lambda>t. t" third_fails
        "''one''" five_messages]
    by (intro conjI) assumption+
qed

subsection \<open>The provider calls\<close>

text \<open>
  C9. The claim: for every text, the provider call fails on a transport failure, on a
  response that is not \<open>ok\<close> and on a malformed payload; in particular a successful
  response of the local provider that lacks the vector field is an error. The code does
  not keep the last part, nor its own documentation (\<open>getOllamaEmbedding\<close> is documented
  to return the embedding vector, a \<open>number[]\<close>): on the response \<open>{}\<close> with status 200 the
  local provider call returns \<open>undefined\<close> and throws nothing, \<open>getEmbedding\<close> stores that
  in the cache, and the batch attaches it to the message without the warning every
  failure gets. On the same response the cloud provider call throws (the read of
  \<open>embedding.value\<close>), and the local call itself throws on a transport failure, on a
  status 500 and on a body that is not JSON.
\<close>

theorem missing_vector_is_no_error:
  "getOllamaEmbedding (always (Response empty_object_response)) (config default_service) start ''one''
     = (Inr None, \<lparr>clock = 0, requests = 1\<rparr>) \<and>
   \<not> isl (fst (getOllamaEmbedding (always (Response empty_object_response))
                  (config default_service) start ''one'')) \<and>
   (\<exists>svc' w'.
      generateEmbeddingsForMessages (\<lambda>t. t) (always (Response empty_object_response))
          default_service start [\<lparr>msg_id = 1, body = ''one''\<rparr>] =
        Some ([\<lparr>msg_id = 1, body = ''one'', embedding = None\<rparr>], [(1, 1)], [], svc', w') \<and>
      cache (service_cache svc') = [(''one'', None)]) \<and>
   fst (getGeminiEmbedding (always (Response empty_object_response)) (Some cloud_config) start ''one'')
     = Inl TypeError \<and>
   fst (getOllamaEmbedding (always Failed) (config default_service) start ''one'')
     = Inl NetworkError \<and>
   fst (getOllamaEmbedding (always (Response server_error_response)) (config default_service)
          start ''one'')
     = Inl (OllamaApiError 500 ''model not found'') \<and>
   fst (getOllamaEmbedding (always (Response html_response)) (config default_service) start ''one'')
     = Inl SyntaxError"
proof -
  have one: "getOllamaEmbedding (always (Response empty_object_response)) (config default_service)
      start ''one'' = (Inr None, \<lparr>clock = 0, requests = 1\<rparr>)"
    by (simp add: getOllamaEmbedding_def default_service_def local_config_def fetch_def always_def
        empty_object_response_def start_def)
  have batch: "\<exists>svc' w'.
      generateEmbeddingsForMessages (\<lambda>t. t) (always (Response empty_object_response))
          default_service start [\<lparr>msg_id = 1, body = ''one''\<rparr>] =
        Some ([\<lparr>msg_id = 1, body = ''one'', embedding = None\<rparr>], [(1, 1)], [], svc', w') \<and>
      cache (service_cache svc') = [(''one'', None)]"
    by (simp add: generateEmbeddingsForMessages_def getEmbedding_def
        cached_value_def cache_get_def cache_set_def default_service_def local_config_def start_def
        EmbeddingCache_new_def RateLimiter_new_def throttle_room
        getOllamaEmbedding_def fetch_def always_def empty_object_response_def
        ollama_request_def with_embedding_def Let_def)
  have cloud: "fst (getGeminiEmbedding (always (Response empty_object_response)) (Some cloud_config)
      start ''one'') = Inl TypeError"
    by (simp add: getGeminiEmbedding_def fetch_def always_def cloud_config_def
        empty_object_response_def)
  have others:
    "fst (getOllamaEmbedding (always Failed) (config default_service) start ''one'')
       = Inl NetworkError"
    "fst (getOllamaEmbedding (always (Response server_error_response)) (config default_service)
            start ''one'')
       = Inl (OllamaApiError 500 ''model not found'')"
    "fst (getOllamaEmbedding (always (Response html_response)) (config default_service) start ''one'')
       = Inl SyntaxError"
    by (simp_all add: getOllamaEmbedding_def default_service_def local_config_def fetch_def
        always_def server_error_response_def html_response_def)
  from one batch cloud others show ?thesis by simp
qed

end
